theory Spec2Isabelle
  imports Main "HOL-Library.Sublist"
begin

section \<open>Path strings\<close>

text \<open>
  Paths are JavaScript strings; every operation the lock service performs on them
  (\<^verbatim>\<open>replace\<close>, \<^verbatim>\<open>split\<close>, \<^verbatim>\<open>join\<close>, \<^verbatim>\<open>startsWith\<close>, \<^verbatim>\<open>substring\<close>, \<^verbatim>\<open>===\<close>)
  works code unit by code unit, so a path is modelled as a list of characters.
  \<^verbatim>\<open>a.startsWith(b)\<close> is \<open>prefix b a\<close>.
\<close>

text \<open>\<^verbatim>\<open>p.replace(/\\/g, "/")\<close>: every backslash (code 0x5C) becomes a forward slash.\<close>

definition replace_backslashes :: "string \<Rightarrow> string" where
  "replace_backslashes p = map (\<lambda>c. if c = CHR 0x5C then CHR ''/'' else c) p"

text \<open>\<^verbatim>\<open>.replace(/\/+/g, "/")\<close>: every maximal run of slashes becomes one slash.\<close>

fun collapse_slashes :: "string \<Rightarrow> string" where
  "collapse_slashes (c # d # cs) =
     (if c = CHR ''/'' \<and> d = CHR ''/'' then collapse_slashes (d # cs)
      else c # collapse_slashes (d # cs))"
| "collapse_slashes cs = cs"

text \<open>\<^verbatim>\<open>.replace(/\/$/, "")\<close>: one slash at the very end of the string is dropped.\<close>

definition strip_trailing_slash :: "string \<Rightarrow> string" where
  "strip_trailing_slash p = (if p \<noteq> [] \<and> last p = CHR ''/'' then butlast p else p)"

definition normalizePath :: "string \<Rightarrow> string" where
  "normalizePath p = strip_trailing_slash (collapse_slashes (replace_backslashes p))"

text \<open>\<^verbatim>\<open>s.split("/")\<close>: the pieces between slashes; never empty (\<^verbatim>\<open>"".split("/")\<close> is \<^verbatim>\<open>[""]\<close>).\<close>

fun split_slash :: "string \<Rightarrow> string list" where
  "split_slash [] = [[]]"
| "split_slash (c # cs) =
     (if c = CHR ''/'' then [] # split_slash cs
      else (case split_slash cs of
              [] \<Rightarrow> [[c]]
            | p # ps \<Rightarrow> (c # p) # ps))"

text \<open>\<^verbatim>\<open>parts.join("/")\<close>.\<close>

fun join_slash :: "string list \<Rightarrow> string" where
  "join_slash [] = []"
| "join_slash [p] = p"
| "join_slash (p # q # ps) = p @ CHR ''/'' # join_slash (q # ps)"

text \<open>
  \<^verbatim>\<open>getParentFolders\<close>: for \<open>i = 1 .. parts.length - 1\<close> the first \<open>i\<close> parts joined
  (\<^verbatim>\<open>parts.slice(0, i).join("/")\<close>).
\<close>

definition getParentFolders :: "string \<Rightarrow> string list" where
  "getParentFolders filePath =
     (let parts = split_slash (normalizePath filePath)
      in map (\<lambda>i. join_slash (take i parts)) [1..<length parts])"

section \<open>Instance configuration\<close>

text \<open>
  The part of \<^verbatim>\<open>instance.config\<close> the lock service reads and writes. Both arrays may be
  undefined, which the code tests for (\<^verbatim>\<open>!instance.config.lockedFiles\<close>,
  \<^verbatim>\<open>instance.config.lockedFiles || []\<close>); an empty array is not undefined.
  The call \<^verbatim>\<open>StorageSubsystem.store\<close> that follows each mutation hands the configuration to
  the persistence layer and does not change it; it is not part of the model.
\<close>

record inst_config =
  lockedFiles :: "string list option"
  foldersWithLockedContent :: "string list option"

text \<open>\<^verbatim>\<open>instance.config.lockedFiles || []\<close> and \<^verbatim>\<open>instance.config.foldersWithLockedContent || []\<close>.\<close>

definition lockedFilesOf :: "inst_config \<Rightarrow> string list" where
  "lockedFilesOf c = (case lockedFiles c of None \<Rightarrow> [] | Some lf \<Rightarrow> lf)"

definition foldersOf :: "inst_config \<Rightarrow> string list" where
  "foldersOf c = (case foldersWithLockedContent c of None \<Rightarrow> [] | Some fs \<Rightarrow> fs)"

section \<open>The ancestor index\<close>

text \<open>
  A JavaScript \<^verbatim>\<open>Set\<close> keeps its elements in insertion order and \<^verbatim>\<open>Array.from\<close> reads
  them in that order: \<open>set_add\<close> is \<^verbatim>\<open>foldersSet.add(parent)\<close> on the list of elements.
\<close>

definition set_add :: "string list \<Rightarrow> string \<Rightarrow> string list" where
  "set_add s x = (if x \<in> set s then s else s @ [x])"

definition collectFolders :: "string list \<Rightarrow> string list" where
  "collectFolders lf =
     fold (\<lambda>lockedPath s. fold (\<lambda>parent s'. set_add s' parent) (getParentFolders lockedPath) s) lf []"

definition updateFoldersWithLockedContent :: "inst_config \<Rightarrow> inst_config" where
  "updateFoldersWithLockedContent c =
     (let lf = lockedFilesOf c
      in if lf = [] then c\<lparr>foldersWithLockedContent := Some []\<rparr>
         else c\<lparr>foldersWithLockedContent := Some (collectFolders lf)\<rparr>)"

section \<open>Queries\<close>

text \<open>The loops of the three query functions, each returning at its first hit.\<close>

fun directly_locked_loop :: "string \<Rightarrow> string list \<Rightarrow> bool" where
  "directly_locked_loop normalizedTarget [] = False"
| "directly_locked_loop normalizedTarget (lockedPath # rest) =
     (if normalizedTarget = normalizePath lockedPath then True
      else directly_locked_loop normalizedTarget rest)"

definition isPathDirectlyLocked :: "inst_config \<Rightarrow> string \<Rightarrow> bool" where
  "isPathDirectlyLocked c targetPath =
     (let lf = lockedFilesOf c
      in if lf = [] then False else directly_locked_loop (normalizePath targetPath) lf)"

fun locked_loop :: "string \<Rightarrow> string list \<Rightarrow> bool" where
  "locked_loop normalizedTarget [] = False"
| "locked_loop normalizedTarget (lockedPath # rest) =
     (let normalizedLocked = normalizePath lockedPath
      in if normalizedTarget = normalizedLocked then True
         else if prefix (normalizedLocked @ ''/'') normalizedTarget then True
         else locked_loop normalizedTarget rest)"

definition isPathLocked :: "inst_config \<Rightarrow> string \<Rightarrow> bool" where
  "isPathLocked c targetPath =
     (let lf = lockedFilesOf c
      in if lf = [] then False else locked_loop (normalizePath targetPath) lf)"

fun marked_loop :: "string \<Rightarrow> string list \<Rightarrow> bool" where
  "marked_loop normalizedTarget [] = False"
| "marked_loop normalizedTarget (markedFolder # rest) =
     (if markedFolder = normalizedTarget \<or> prefix (normalizedTarget @ ''/'') markedFolder then True
      else marked_loop normalizedTarget rest)"

fun detailed_loop :: "string \<Rightarrow> string list \<Rightarrow> string option" where
  "detailed_loop normalizedTarget [] = None"
| "detailed_loop normalizedTarget (lockedPath # rest) =
     (if prefix (normalizedTarget @ ''/'') (normalizePath lockedPath) then Some lockedPath
      else detailed_loop normalizedTarget rest)"

definition containsLockedPath :: "inst_config \<Rightarrow> string \<Rightarrow> string option" where
  "containsLockedPath c targetPath =
     (let lf = lockedFilesOf c
      in if lf = [] then None
         else let normalizedTarget = normalizePath targetPath;
                  marked = foldersOf c
              in if marked \<noteq> [] \<and> \<not> marked_loop normalizedTarget marked then None
                 else detailed_loop normalizedTarget lf)"

definition isPathOrContentsLocked :: "inst_config \<Rightarrow> string \<Rightarrow> string option" where
  "isPathOrContentsLocked c targetPath =
     (if isPathLocked c targetPath then Some targetPath else containsLockedPath c targetPath)"

text \<open>
  \<^verbatim>\<open>if (lockedPath)\<close> on a \<^verbatim>\<open>string | null\<close>: \<^verbatim>\<open>null\<close> and the empty string are falsy.
\<close>

definition truthy :: "string option \<Rightarrow> bool" where
  "truthy r = (case r of None \<Rightarrow> False | Some s \<Rightarrow> s \<noteq> [])"

record lock_status =
  hasLocked :: bool
  lockedPaths :: "string list"

fun check_loop :: "inst_config \<Rightarrow> bool \<Rightarrow> string list \<Rightarrow> string list \<Rightarrow> string list" where
  "check_loop c checkContents [] acc = acc"
| "check_loop c checkContents (t # rest) acc =
     (if checkContents then
        (let lockedPath = isPathOrContentsLocked c t
         in if truthy lockedPath then check_loop c checkContents rest (acc @ [the lockedPath])
            else check_loop c checkContents rest acc)
      else
        (if isPathLocked c t then check_loop c checkContents rest (acc @ [t])
         else check_loop c checkContents rest acc))"

definition checkLockStatus :: "inst_config \<Rightarrow> string list \<Rightarrow> bool \<Rightarrow> lock_status" where
  "checkLockStatus c targets checkContents =
     (let paths = check_loop c checkContents targets []
      in \<lparr>hasLocked = (length paths > 0), lockedPaths = paths\<rparr>)"

section \<open>Mutations\<close>

text \<open>
  Each mutating function changes \<^verbatim>\<open>instance.config\<close> in place and returns a boolean; the
  model returns the new configuration with that boolean.
  \<^verbatim>\<open>arr.splice(arr.indexOf(x), 1)\<close> removes the first occurrence of \<open>x\<close>: \<open>remove1 x arr\<close>;
  \<^verbatim>\<open>arr.push(x)\<close> is \<open>arr @ [x]\<close>; \<^verbatim>\<open>arr.includes(x)\<close> is \<open>x \<in> set arr\<close>.
\<close>

definition addLock :: "inst_config \<Rightarrow> string \<Rightarrow> inst_config \<times> bool" where
  "addLock c targetPath =
     (let normalizedTarget = normalizePath targetPath;
          lf = (case lockedFiles c of None \<Rightarrow> [] | Some lf \<Rightarrow> lf);
          c1 = c\<lparr>lockedFiles := Some lf\<rparr>
      in if normalizedTarget \<in> set lf then (c1, False)
         else (updateFoldersWithLockedContent (c1\<lparr>lockedFiles := Some (lf @ [normalizedTarget])\<rparr>), True))"

definition removeLock :: "inst_config \<Rightarrow> string \<Rightarrow> inst_config \<times> bool" where
  "removeLock c targetPath =
     (let normalizedTarget = normalizePath targetPath
      in case lockedFiles c of
           None \<Rightarrow> (c\<lparr>lockedFiles := Some []\<rparr>, False)
         | Some lf \<Rightarrow>
             if normalizedTarget \<notin> set lf then (c, False)
             else (updateFoldersWithLockedContent (c\<lparr>lockedFiles := Some (remove1 normalizedTarget lf)\<rparr>), True))"

text \<open>The second loop of \<^verbatim>\<open>removeLockForPath\<close>, over \<^verbatim>\<open>pathsToRemove\<close>.\<close>

fun remove_loop :: "string list \<Rightarrow> string list \<Rightarrow> bool \<Rightarrow> string list \<times> bool" where
  "remove_loop [] lf modified = (lf, modified)"
| "remove_loop (pathToRemove # rest) lf modified =
     (if pathToRemove \<in> set lf then remove_loop rest (remove1 pathToRemove lf) True
      else remove_loop rest lf modified)"

definition removeLockForPath :: "inst_config \<Rightarrow> string \<Rightarrow> inst_config \<times> bool" where
  "removeLockForPath c targetPath =
     (case lockedFiles c of
        None \<Rightarrow> (c, False)
      | Some lf0 \<Rightarrow>
          let normalizedTarget = normalizePath targetPath;
              (lf1, modified1) =
                 (if normalizedTarget \<in> set lf0 then (remove1 normalizedTarget lf0, True)
                  else (lf0, False));
              targetPrefix = normalizedTarget @ ''/'';
              pathsToRemove = filter (prefix targetPrefix) lf1;
              (lf2, modified) = remove_loop pathsToRemove lf1 modified1;
              c' = c\<lparr>lockedFiles := Some lf2\<rparr>
          in if modified then (updateFoldersWithLockedContent c', True) else (c', False))"

definition copyLockForPath :: "inst_config \<Rightarrow> string \<Rightarrow> string \<Rightarrow> inst_config \<times> bool" where
  "copyLockForPath c sourcePath destPath =
     (case lockedFiles c of
        None \<Rightarrow> (c, False)
      | Some lf \<Rightarrow>
          let normalizedSource = normalizePath sourcePath;
              normalizedDest = normalizePath destPath
          in if normalizedSource \<in> set lf then
               (if normalizedDest \<notin> set lf
                then (updateFoldersWithLockedContent (c\<lparr>lockedFiles := Some (lf @ [normalizedDest])\<rparr>), True)
                else (c, True))
             else (c, False))"

text \<open>
  The two loops of \<^verbatim>\<open>moveLockForPath\<close>: the first collects \<^verbatim>\<open>{oldPath, newPath}\<close> for every
  entry under the source prefix (\<^verbatim>\<open>lockedPath.substring(sourcePrefix.length)\<close> is
  \<open>drop (length sourcePrefix) lockedPath\<close>), the second applies them one by one.
\<close>

definition collect_updates :: "string \<Rightarrow> string \<Rightarrow> string list \<Rightarrow> (string \<times> string) list" where
  "collect_updates sourcePrefix normalizedDest lf =
     map (\<lambda>lockedPath. (lockedPath, normalizedDest @ ''/'' @ drop (length sourcePrefix) lockedPath))
         (filter (prefix sourcePrefix) lf)"

fun apply_updates :: "(string \<times> string) list \<Rightarrow> string list \<Rightarrow> bool \<Rightarrow> string list \<times> bool" where
  "apply_updates [] lf modified = (lf, modified)"
| "apply_updates ((oldPath, newPath) # rest) lf modified =
     (if oldPath \<in> set lf then
        (let lf' = remove1 oldPath lf;
             lf'' = (if newPath \<notin> set lf' then lf' @ [newPath] else lf')
         in apply_updates rest lf'' True)
      else apply_updates rest lf modified)"

definition moveLockForPath :: "inst_config \<Rightarrow> string \<Rightarrow> string \<Rightarrow> inst_config \<times> bool" where
  "moveLockForPath c sourcePath destPath =
     (case lockedFiles c of
        None \<Rightarrow> (c, False)
      | Some lf0 \<Rightarrow>
          let normalizedSource = normalizePath sourcePath;
              normalizedDest = normalizePath destPath;
              (lf1, modified1) =
                 (if normalizedSource \<in> set lf0 then
                    (let lf = remove1 normalizedSource lf0
                     in (if normalizedDest \<notin> set lf then lf @ [normalizedDest] else lf, True))
                  else (lf0, False));
              sourcePrefix = normalizedSource @ ''/'';
              updatedPaths = collect_updates sourcePrefix normalizedDest lf1;
              (lf2, modified) = apply_updates updatedPaths lf1 modified1;
              c' = c\<lparr>lockedFiles := Some lf2\<rparr>
          in if modified then (updateFoldersWithLockedContent c', True) else (c', False))"

section \<open>The enforcement middleware\<close>

text \<open>
  The request payload \<^verbatim>\<open>data\<close>, with the fields the middleware and the handlers read, typed as
  the source's casts declare them. \<open>isAdmin\<close> is the value of \<^verbatim>\<open>data?.isAdmin === true\<close>.
  The field \<^verbatim>\<open>data.targets\<close> is read under two casts: \<^verbatim>\<open>string[]\<close> by delete and compress
  (\<open>targets\<close>), and \<^verbatim>\<open>string[][]\<close>, a list of \<^verbatim>\<open>[source, destination]\<close> pairs, by copy and move
  (\<open>targetPairs\<close>).
\<close>

record payload =
  isAdmin :: bool
  instanceUuid :: "string option"
  target :: "string option"
  targets :: "string list option"
  targetPairs :: "(string \<times> string) list option"

record file_lock_check_config =
  event :: string
  getTargets :: "payload \<Rightarrow> string list"
  checkContents :: "bool option"
  adminOnly :: "bool option"

definition FILE_LOCK_CHECK_CONFIGS :: "file_lock_check_config list" where
  "FILE_LOCK_CHECK_CONFIGS =
     [\<lparr>event = ''file/list'',
       getTargets = (\<lambda>data. if \<not> truthy (target data) \<or> target data = Some ''/'' \<or> target data = Some ''.''
                             then [] else [the (target data)]),
       checkContents = Some False, adminOnly = None\<rparr>,
      \<lparr>event = ''file/edit'',
       getTargets = (\<lambda>data. if truthy (target data) then [the (target data)] else []),
       checkContents = Some True, adminOnly = None\<rparr>,
      \<lparr>event = ''file/chmod'',
       getTargets = (\<lambda>data. if truthy (target data) then [the (target data)] else []),
       checkContents = Some True, adminOnly = None\<rparr>,
      \<lparr>event = ''file/copy'',
       getTargets = (\<lambda>data. case targetPairs data of None \<Rightarrow> [] | Some ts \<Rightarrow> map fst ts),
       checkContents = Some True, adminOnly = None\<rparr>,
      \<lparr>event = ''file/move'',
       getTargets = (\<lambda>data. case targetPairs data of None \<Rightarrow> [] | Some ts \<Rightarrow> map fst ts),
       checkContents = Some True, adminOnly = None\<rparr>,
      \<lparr>event = ''file/delete'',
       getTargets = (\<lambda>data. case targets data of None \<Rightarrow> [] | Some ts \<Rightarrow> ts),
       checkContents = Some True, adminOnly = None\<rparr>,
      \<lparr>event = ''file/compress'',
       getTargets = (\<lambda>data. case targets data of None \<Rightarrow> [] | Some ts \<Rightarrow> ts),
       checkContents = Some True, adminOnly = None\<rparr>]"

definition findConfig :: "string \<Rightarrow> file_lock_check_config option" where
  "findConfig ev = find (\<lambda>config. event config = ev) FILE_LOCK_CHECK_CONFIGS"

text \<open>
  \<^verbatim>\<open>InstanceSubsystem.getInstance\<close> is a lookup of the instance by its identifier; the
  instances are a map from identifiers to configurations.
\<close>

type_synonym instances = "string \<rightharpoonup> inst_config"

fun targets_loop :: "inst_config \<Rightarrow> bool \<Rightarrow> string list \<Rightarrow> string option" where
  "targets_loop inst contents [] = None"
| "targets_loop inst contents (t # rest) =
     (if contents then
        (let lockedPath = isPathOrContentsLocked inst t
         in if truthy lockedPath then lockedPath else targets_loop inst contents rest)
      else
        (if isPathLocked inst t then Some t else targets_loop inst contents rest))"

definition checkTargetsLocked :: "instances \<Rightarrow> string \<Rightarrow> string list \<Rightarrow> bool \<Rightarrow> string option" where
  "checkTargetsLocked insts uuid ts contents =
     (case insts uuid of None \<Rightarrow> None | Some inst \<Rightarrow> targets_loop inst contents ts)"

text \<open>
  The middleware either calls \<^verbatim>\<open>next()\<close> or sends
  \<^verbatim>\<open>protocol.error(ctx, event, {err: $t("TXT_CODE_file_locked_error")})\<close> and returns without
  calling \<^verbatim>\<open>next\<close>.
\<close>

datatype mw_result = Next | LockedError

definition fileLockMiddleware :: "instances \<Rightarrow> string \<Rightarrow> payload \<Rightarrow> mw_result" where
  "fileLockMiddleware insts ev data =
     (if \<not> prefix ''file/'' ev then Next
      else case findConfig ev of
             None \<Rightarrow> Next
           | Some config \<Rightarrow>
               if adminOnly config = Some True then Next
               else if isAdmin data then Next
               else if \<not> truthy (instanceUuid data) then Next
               else let ts = getTargets config data
                    in if length ts = 0 then Next
                       else let lockedPath =
                                  checkTargetsLocked insts (the (instanceUuid data)) ts
                                    (checkContents config \<noteq> Some False)
                            in if truthy lockedPath then LockedError else Next)"

section \<open>The create handlers\<close>

text \<open>
  The file manager is outside the lock subsystem: all the handlers need of a call to it is
  whether it returns normally or throws, which \<open>fm\<close> answers for each call.
  A handler answers \<^verbatim>\<open>protocol.response(ctx, true)\<close> or, from its \<^verbatim>\<open>catch\<close>,
  \<^verbatim>\<open>protocol.responseError\<close>; it throws when the lookup finds no instance, as it does for a
  missing identifier. A missing \<^verbatim>\<open>data.target\<close> reaches \<^verbatim>\<open>removeLockForPath\<close> as
  \<^verbatim>\<open>undefined\<close>: the function returns at once when \<^verbatim>\<open>lockedFiles\<close> is undefined, and
  \<^verbatim>\<open>normalizePath(undefined)\<close> throws otherwise.
\<close>

datatype fm_call = NewFile "string option" | Mkdir "string option"

datatype reply = Response | ResponseError

definition clear_lock :: "instances \<Rightarrow> string \<Rightarrow> inst_config \<Rightarrow> string option \<Rightarrow> instances \<times> reply" where
  "clear_lock insts uuid inst tgt =
     (case tgt of
        Some t \<Rightarrow> (insts(uuid \<mapsto> fst (removeLockForPath inst t)), Response)
      | None \<Rightarrow> (case lockedFiles inst of None \<Rightarrow> (insts, Response) | Some lf \<Rightarrow> (insts, ResponseError)))"

definition file_touch :: "(fm_call \<Rightarrow> bool) \<Rightarrow> instances \<Rightarrow> payload \<Rightarrow> instances \<times> reply" where
  "file_touch fm insts data =
     (case instanceUuid data of
        None \<Rightarrow> (insts, ResponseError)
      | Some uuid \<Rightarrow>
          (case insts uuid of
             None \<Rightarrow> (insts, ResponseError)
           | Some inst \<Rightarrow>
               if \<not> fm (NewFile (target data)) then (insts, ResponseError)
               else clear_lock insts uuid inst (target data)))"

definition file_mkdir :: "(fm_call \<Rightarrow> bool) \<Rightarrow> instances \<Rightarrow> payload \<Rightarrow> instances \<times> reply" where
  "file_mkdir fm insts data =
     (case instanceUuid data of
        None \<Rightarrow> (insts, ResponseError)
      | Some uuid \<Rightarrow>
          (case insts uuid of
             None \<Rightarrow> (insts, ResponseError)
           | Some inst \<Rightarrow>
               if \<not> fm (Mkdir (target data)) then (insts, ResponseError)
               else clear_lock insts uuid inst (target data)))"

section \<open>The data model's invariants and the notions of the proofs\<close>

text \<open>
  The canonical form of a path, stated on the string itself: no backslash, no two slashes in a
  row, no slash at the end.
\<close>

fun double_slash :: "string \<Rightarrow> bool" where
  "double_slash (c # d # cs) = ((c = CHR ''/'' \<and> d = CHR ''/'') \<or> double_slash (d # cs))"
| "double_slash cs = False"

definition canonical :: "string \<Rightarrow> bool" where
  "canonical p \<longleftrightarrow> CHR 0x5C \<notin> set p \<and> \<not> double_slash p \<and> (p = [] \<or> last p \<noteq> CHR ''/'')"

text \<open>
  The proper separator-bounded ancestors of a path, in the spec's words: every prefix of the
  path that ends at a slash, without that slash. The closure of a registry is the set of the
  ancestors of its entries.
\<close>

definition ancestors :: "string \<Rightarrow> string list" where
  "ancestors e = map butlast (filter (\<lambda>q. q \<noteq> [] \<and> last q = CHR ''/'') (prefixes e))"

definition closure :: "string list \<Rightarrow> string set" where
  "closure lf = (\<Union>e\<in>set lf. set (ancestors e))"

definition registry_canonical :: "inst_config \<Rightarrow> bool" where
  "registry_canonical c \<longleftrightarrow> list_all canonical (lockedFilesOf c)"

definition lock_inv :: "inst_config \<Rightarrow> bool" where
  "lock_inv c \<longleftrightarrow>
     registry_canonical c \<and> distinct (lockedFilesOf c) \<and>
     set (foldersOf c) = closure (lockedFilesOf c)"

text \<open>\<open>under S e\<close>: the entry \<open>e\<close> lies strictly below the folder \<open>S\<close>.\<close>

definition under :: "string \<Rightarrow> string \<Rightarrow> bool" where
  "under S e \<longleftrightarrow> prefix (S @ ''/'') e"

text \<open>The values the loop of \<^verbatim>\<open>getParentFolders\<close> pushes for an already normalized string.\<close>

definition parents_of :: "string \<Rightarrow> string set" where
  "parents_of s = {join_slash (take i (split_slash s)) | i. 0 < i \<and> i < length (split_slash s)}"


text \<open>
  The plain scan that \<^verbatim>\<open>containsLockedPath\<close> is compared with, in the spec's words: the first
  registry entry that the normalized path followed by a slash prefixes, or none.
\<close>

definition plain_scan :: "inst_config \<Rightarrow> string \<Rightarrow> string option" where
  "plain_scan c P = find (under (normalizePath P)) (lockedFilesOf c)"

text \<open>What \<^verbatim>\<open>removeLockForPath\<close> computes on a registry without duplicates.\<close>

definition pruned :: "string \<Rightarrow> string list \<Rightarrow> string list" where
  "pruned t lf = filter (\<lambda>e. e \<noteq> t \<and> \<not> under t e) lf"

text \<open>
  The registry after the first case of \<^verbatim>\<open>moveLockForPath\<close>: a directly locked source is
  removed and the destination pushed unless it is present.
\<close>

definition relabel :: "string \<Rightarrow> string \<Rightarrow> string list \<Rightarrow> string list" where
  "relabel S D lf0 =
     (if S \<in> set lf0
      then (let lf = remove1 S lf0 in if D \<notin> set lf then lf @ [D] else lf)
      else lf0)"

text \<open>
  The registry-level notions of the queries, in the spec's words. A path is locked in a
  registry when it is an entry or lies below one; it contains a lock when an entry lies below
  it. The stored entries are compared in their normalized form: the first descendant of a path
  is the first stored entry whose normalized form lies below it.
\<close>

definition locked_in :: "string list \<Rightarrow> string \<Rightarrow> bool" where
  "locked_in reg p \<longleftrightarrow> (\<exists>E\<in>set reg. p = E \<or> under E p)"

definition contains_lock :: "string list \<Rightarrow> string \<Rightarrow> bool" where
  "contains_lock reg p \<longleftrightarrow> (\<exists>L\<in>set reg. under p L)"

definition first_descendant :: "string list \<Rightarrow> string \<Rightarrow> string option" where
  "first_descendant lf p = find (\<lambda>L. under p (normalizePath L)) lf"

definition normalized_scan :: "inst_config \<Rightarrow> string \<Rightarrow> string option" where
  "normalized_scan c P = first_descendant (lockedFilesOf c) (normalizePath P)"

text \<open>
  An input path of a batch check is offending when its normalized form is locked in the
  registry or contains a lock of the registry; the check is to report the input itself when it
  is locked, and the first descendant otherwise.
\<close>

definition offending :: "inst_config \<Rightarrow> string \<Rightarrow> bool" where
  "offending c t \<longleftrightarrow>
     locked_in (map normalizePath (lockedFilesOf c)) (normalizePath t)
     \<or> contains_lock (map normalizePath (lockedFilesOf c)) (normalizePath t)"

definition reported :: "inst_config \<Rightarrow> string \<Rightarrow> string" where
  "reported c t =
     (if locked_in (map normalizePath (lockedFilesOf c)) (normalizePath t) then t
      else the (first_descendant (lockedFilesOf c) (normalizePath t)))"

text \<open>What the check with contents finds for one input path, as the code computes it.\<close>

definition check_hit :: "inst_config \<Rightarrow> string \<Rightarrow> bool" where
  "check_hit c t \<longleftrightarrow> isPathOrContentsLocked c t \<noteq> None"

definition check_result :: "inst_config \<Rightarrow> string \<Rightarrow> string" where
  "check_result c t = (if isPathLocked c t then t else the (containsLockedPath c t))"

text \<open>
  The index is current when it holds what \<^verbatim>\<open>updateFoldersWithLockedContent\<close> computes from the
  registry.
\<close>

definition index_current :: "inst_config \<Rightarrow> bool" where
  "index_current c \<longleftrightarrow> set (foldersOf c) = set (collectFolders (lockedFilesOf c))"

section \<open>Example configurations\<close>

definition cfg :: "string list \<Rightarrow> string list \<Rightarrow> inst_config" where
  "cfg lf fs = \<lparr>lockedFiles = Some lf, foldersWithLockedContent = Some fs\<rparr>"

text \<open>A file manager whose every call throws, and one whose every call returns.\<close>

definition fm_throws :: "fm_call \<Rightarrow> bool" where
  "fm_throws call = False"

definition fm_returns :: "fm_call \<Rightarrow> bool" where
  "fm_returns call = True"

text \<open>One instance \<open>i\<close> with the given configuration, and a non-admin create request at a path.\<close>

definition one_instance :: "inst_config \<Rightarrow> instances" where
  "one_instance c = [''i'' \<mapsto> c]"

definition create_request :: "string \<Rightarrow> payload" where
  "create_request P =
     \<lparr>isAdmin = False, instanceUuid = Some ''i'', target = Some P, targets = None,
      targetPairs = None\<rparr>"

lemmas path_eval = normalizePath_def replace_backslashes_def strip_trailing_slash_def
lemmas cfg_eval = cfg_def lockedFilesOf_def foldersOf_def

section \<open>Splitting, joining and the parent folders\<close>

lemma split_slash_nonempty: "split_slash s \<noteq> []"
  by (induction s) (auto split: list.splits)

lemma join_slash_Cons: "ps \<noteq> [] \<Longrightarrow> join_slash (p # ps) = p @ CHR ''/'' # join_slash ps"
  by (cases ps) auto

lemma join_slash_hd: "join_slash ((c # h) # t) = c # join_slash (h # t)"
  by (cases t) auto

lemma parents_of_Nil: "parents_of [] = {}"
  by (auto simp: parents_of_def)

lemma parents_of_slash: "parents_of (CHR ''/'' # cs) = insert [] ((#) CHR ''/'' ` parents_of cs)"
proof -
  let ?ps = "split_slash cs"
  have ne: "?ps \<noteq> []" by (rule split_slash_nonempty)
  have "parents_of (CHR ''/'' # cs) = {join_slash (take i ([] # ?ps)) | i. 0 < i \<and> i < Suc (length ?ps)}"
    by (simp add: parents_of_def)
  also have "\<dots> = insert [] {CHR ''/'' # join_slash (take j ?ps) | j. 0 < j \<and> j < length ?ps}"
  proof (intro set_eqI iffI)
    fix x assume "x \<in> {join_slash (take i ([] # ?ps)) | i. 0 < i \<and> i < Suc (length ?ps)}"
    then obtain i where i: "0 < i" "i < Suc (length ?ps)" and x: "x = join_slash (take i ([] # ?ps))" by blast
    from i obtain j where j: "i = Suc j" by (cases i) auto
    show "x \<in> insert [] {CHR ''/'' # join_slash (take j ?ps) | j. 0 < j \<and> j < length ?ps}"
    proof (cases j)
      case 0 with x j show ?thesis by simp
    next
      case (Suc k)
      with j i ne have "take j ?ps \<noteq> []" by auto
      with x j have "x = CHR ''/'' # join_slash (take j ?ps)" by (simp add: join_slash_Cons)
      with Suc j i show ?thesis by auto
    qed
  next
    fix x assume "x \<in> insert [] {CHR ''/'' # join_slash (take j ?ps) | j. 0 < j \<and> j < length ?ps}"
    then consider "x = []" | j where "0 < j" "j < length ?ps" "x = CHR ''/'' # join_slash (take j ?ps)" by blast
    then show "x \<in> {join_slash (take i ([] # ?ps)) | i. 0 < i \<and> i < Suc (length ?ps)}"
    proof cases
      case 1
      have "join_slash (take 1 ([] # ?ps)) = []" by simp
      have "0 < (1::nat) \<and> 1 < Suc (length ?ps)" using ne by simp
      with 1 \<open>join_slash (take 1 ([] # ?ps)) = []\<close> show ?thesis by (intro CollectI exI[of _ 1]) simp
    next
      case 2
      then have "take j ?ps \<noteq> []" by auto
      then have "join_slash (take (Suc j) ([] # ?ps)) = x" using 2 by (simp add: join_slash_Cons)
      with 2 show ?thesis by (intro CollectI exI[of _ "Suc j"]) simp
    qed
  qed
  also have "\<dots> = insert [] ((#) CHR ''/'' ` parents_of cs)"
    by (auto simp: parents_of_def)
  finally show ?thesis .
qed

lemma parents_of_other: 
  assumes "c \<noteq> CHR ''/''"
  shows "parents_of (c # cs) = (#) c ` parents_of cs"
proof -
  obtain h t where ht: "split_slash cs = h # t" using split_slash_nonempty by (cases "split_slash cs") auto
  have sp: "split_slash (c # cs) = (c # h) # t" using assms ht by simp
  have J: "join_slash (take i ((c # h) # t)) = c # join_slash (take i (h # t))" if "0 < i" for i
  proof -
    from that obtain j where "i = Suc j" by (cases i) auto
    then show ?thesis by (simp add: join_slash_hd)
  qed
  show ?thesis
  proof (intro set_eqI iffI)
    fix x assume "x \<in> parents_of (c # cs)"
    then obtain i where i: "0 < i" "i < length ((c # h) # t)" "x = join_slash (take i ((c # h) # t))"
      unfolding parents_of_def sp by blast
    then have "x = c # join_slash (take i (h # t))" by (simp add: J)
    moreover have "join_slash (take i (h # t)) \<in> parents_of cs"
      unfolding parents_of_def ht using i by auto
    ultimately show "x \<in> (#) c ` parents_of cs" by blast
  next
    fix x assume "x \<in> (#) c ` parents_of cs"
    then obtain i where i: "0 < i" "i < length (h # t)" "x = c # join_slash (take i (h # t))"
      unfolding parents_of_def ht by blast
    then have "x = join_slash (take i ((c # h) # t))" by (simp add: J)
    then show "x \<in> parents_of (c # cs)"
      unfolding parents_of_def sp using i by auto
  qed
qed

lemma parents_of_iff: "p \<in> parents_of s \<longleftrightarrow> prefix (p @ ''/'') s"
proof (induction s arbitrary: p)
  case Nil
  then show ?case by (simp add: parents_of_Nil)
next
  case (Cons c cs)
  show ?case
  proof (cases "c = CHR ''/''")
    case True
    then show ?thesis using Cons by (cases p) (auto simp: parents_of_slash)
  next
    case False
    then show ?thesis using Cons by (cases p) (auto simp: parents_of_other)
  qed
qed

lemma set_getParentFolders: "set (getParentFolders e) = {p. prefix (p @ ''/'') (normalizePath e)}"
proof -
  have "set (getParentFolders e) = parents_of (normalizePath e)"
    by (auto simp: getParentFolders_def parents_of_def Let_def)
  then show ?thesis using parents_of_iff by auto
qed


lemma double_slash_single: "double_slash (v # ys) \<longleftrightarrow> double_slash ys \<or> (ys \<noteq> [] \<and> v = CHR ''/'' \<and> hd ys = CHR ''/'')"
  by (cases ys) auto

lemma double_slash_append:
  "double_slash (xs @ ys) \<longleftrightarrow>
     double_slash xs \<or> double_slash ys \<or> (xs \<noteq> [] \<and> ys \<noteq> [] \<and> last xs = CHR ''/'' \<and> hd ys = CHR ''/'')"
proof (induction xs)
  case Nil
  then show ?case by simp
next
  case (Cons x xs)
  show ?case
  proof (cases xs)
    case Nil
    then show ?thesis by (simp add: double_slash_single)
  next
    case (Cons d cs)
    with Cons.IH show ?thesis by auto
  qed
qed

lemma no_backslash_replace: "CHR 0x5C \<notin> set (replace_backslashes p)"
  by (auto simp: replace_backslashes_def)

lemma replace_backslashes_id: "CHR 0x5C \<notin> set p \<Longrightarrow> replace_backslashes p = p"
  unfolding replace_backslashes_def by (induction p) auto

lemma set_collapse_slashes: "set (collapse_slashes p) \<subseteq> set p"
  by (induction p rule: collapse_slashes.induct) auto

lemma collapse_slashes_hd: "\<exists>r. collapse_slashes (d # cs) = d # r"
  by (induction "d # cs" arbitrary: d cs rule: collapse_slashes.induct) auto

lemma no_double_collapse: "\<not> double_slash (collapse_slashes p)"
proof (induction p rule: collapse_slashes.induct)
  case (1 c d cs)
  obtain r where r: "collapse_slashes (d # cs) = d # r" using collapse_slashes_hd by blast
  with 1 show ?case by (auto split: if_splits)
qed auto

lemma collapse_slashes_id: "\<not> double_slash p \<Longrightarrow> collapse_slashes p = p"
  by (induction p rule: collapse_slashes.induct) auto

lemma strip_trailing_slash_id: "p = [] \<or> last p \<noteq> CHR ''/'' \<Longrightarrow> strip_trailing_slash p = p"
  by (auto simp: strip_trailing_slash_def)

lemma canonical_strip:
  assumes "CHR 0x5C \<notin> set p" "\<not> double_slash p"
  shows "canonical (strip_trailing_slash p)"
proof (cases "p \<noteq> [] \<and> last p = CHR ''/''")
  case True
  then have p: "p = butlast p @ ''/''" by (metis append_butlast_last_id)
  with assms(2) have "\<not> double_slash (butlast p @ ''/'')" by simp
  then have "\<not> double_slash (butlast p)" "butlast p = [] \<or> last (butlast p) \<noteq> CHR ''/''"
    by (auto simp: double_slash_append)
  moreover have "CHR 0x5C \<notin> set (butlast p)" using assms(1) by (meson in_set_butlastD)
  ultimately show ?thesis using True by (simp add: canonical_def strip_trailing_slash_def)
next
  case False
  then show ?thesis using assms by (auto simp: canonical_def strip_trailing_slash_def)
qed

lemma canonical_normalizePath: "canonical (normalizePath p)"
  unfolding normalizePath_def
  using no_backslash_replace[of p] set_collapse_slashes[of "replace_backslashes p"]
  by (intro canonical_strip no_double_collapse) auto

lemma normalizePath_canonical: "canonical p \<Longrightarrow> normalizePath p = p"
  by (simp add: canonical_def normalizePath_def replace_backslashes_id collapse_slashes_id
      strip_trailing_slash_id)

lemma normalizePath_idem: "normalizePath (normalizePath p) = normalizePath p"
  by (simp add: canonical_normalizePath normalizePath_canonical)

lemma canonical_iff: "canonical p \<longleftrightarrow> normalizePath p = p"
  using canonical_normalizePath[of p] normalizePath_canonical[of p] by auto

lemma list_all_canonical: "list_all canonical lf \<longleftrightarrow> list_all (\<lambda>e. normalizePath e = e) lf"
  by (simp add: list_all_iff canonical_iff)

lemma registry_canonical_alt:
  "registry_canonical c \<longleftrightarrow> list_all (\<lambda>e. normalizePath e = e) (lockedFilesOf c)"
  by (simp add: registry_canonical_def list_all_canonical)

text \<open>Re-rooting a canonical path under a canonical destination gives a canonical path.\<close>

lemma canonical_reroot:
  assumes D: "canonical D" and e: "canonical (S @ ''/'' @ rel)"
  shows "canonical (D @ ''/'' @ rel)"
proof -
  from e have nb: "CHR 0x5C \<notin> set rel" and nd: "\<not> double_slash ((S @ ''/'') @ rel)"
    and la: "last (S @ ''/'' @ rel) \<noteq> CHR ''/''"
    by (auto simp: canonical_def)
  from la have rel_ne: "rel \<noteq> []" by auto
  with la have last_rel: "last rel \<noteq> CHR ''/''" by simp
  from nd rel_ne have nd_rel: "\<not> double_slash rel" and hd_rel: "hd rel \<noteq> CHR ''/''"
    unfolding double_slash_append by auto
  from D have Dn: "CHR 0x5C \<notin> set D" "\<not> double_slash D" "D = [] \<or> last D \<noteq> CHR ''/''"
    by (auto simp: canonical_def)
  have "\<not> double_slash (D @ ''/'')" using Dn by (auto simp: double_slash_append)
  then have "\<not> double_slash ((D @ ''/'') @ rel)"
    unfolding double_slash_append[of "D @ ''/''" rel] using nd_rel hd_rel by auto
  then show ?thesis using nb Dn rel_ne last_rel by (auto simp: canonical_def)
qed

section \<open>The ancestor index\<close>

lemma ancestors_iff: "p \<in> set (ancestors e) \<longleftrightarrow> prefix (p @ ''/'') e"
proof
  assume "p \<in> set (ancestors e)"
  then obtain q where q: "prefix q e" "q \<noteq> []" "last q = CHR ''/''" "p = butlast q"
    by (auto simp: ancestors_def)
  then have "p @ ''/'' = q" by (metis append_butlast_last_id)
  with q show "prefix (p @ ''/'') e" by simp
next
  assume "prefix (p @ ''/'') e"
  then have "p @ ''/'' \<in> set (filter (\<lambda>q. q \<noteq> [] \<and> last q = CHR ''/'') (prefixes e))"
    by simp
  then have "butlast (p @ ''/'') \<in> set (ancestors e)"
    unfolding ancestors_def by (metis (no_types, lifting) image_eqI set_map)
  then show "p \<in> set (ancestors e)" by simp
qed

lemma closure_iff: "p \<in> closure lf \<longleftrightarrow> (\<exists>e\<in>set lf. prefix (p @ ''/'') e)"
  by (simp add: closure_def ancestors_iff)

lemma closure_Nil: "closure [] = {}"
  by (simp add: closure_def)

lemma set_fold_set_add: "set (fold (\<lambda>x s. set_add s x) xs s) = set s \<union> set xs"
  by (induction xs arbitrary: s) (auto simp: set_add_def)

lemma set_fold_parents:
  "set (fold (\<lambda>lockedPath s. fold (\<lambda>parent s'. set_add s' parent) (getParentFolders lockedPath) s) lf s0)
     = set s0 \<union> (\<Union>e\<in>set lf. set (getParentFolders e))"
  by (induction lf arbitrary: s0) (auto simp: set_fold_set_add)

lemma set_collectFolders: "set (collectFolders lf) = (\<Union>e\<in>set lf. set (getParentFolders e))"
  by (simp add: collectFolders_def set_fold_parents)

lemma set_collectFolders_closure:
  assumes "list_all (\<lambda>e. normalizePath e = e) lf"
  shows "set (collectFolders lf) = closure lf"
  using assms
  by (auto simp: set_collectFolders set_getParentFolders closure_iff list_all_iff)

lemma lockedFilesOf_update [simp]:
  "lockedFilesOf (updateFoldersWithLockedContent c) = lockedFilesOf c"
  by (simp add: updateFoldersWithLockedContent_def lockedFilesOf_def Let_def)

lemma lockedFiles_update [simp]:
  "lockedFiles (updateFoldersWithLockedContent c) = lockedFiles c"
  by (simp add: updateFoldersWithLockedContent_def Let_def)

lemma foldersOf_update:
  "foldersOf (updateFoldersWithLockedContent c) =
     (if lockedFilesOf c = [] then [] else collectFolders (lockedFilesOf c))"
  by (simp add: updateFoldersWithLockedContent_def foldersOf_def Let_def)

lemma index_after_update:
  assumes "registry_canonical c"
  shows "set (foldersOf (updateFoldersWithLockedContent c)) = closure (lockedFilesOf c)"
  using assms
  by (simp add: foldersOf_update registry_canonical_alt set_collectFolders_closure closure_Nil)

lemma collectFolders_Nil [simp]: "collectFolders [] = []"
  by (simp add: collectFolders_def)

lemma index_current_update: "index_current (updateFoldersWithLockedContent c)"
  by (simp add: index_current_def foldersOf_update)

lemma lock_inv_index_current: "lock_inv c \<Longrightarrow> index_current c"
  by (simp add: lock_inv_def index_current_def registry_canonical_alt set_collectFolders_closure)

lemma lock_inv_update:
  assumes "registry_canonical c" "distinct (lockedFilesOf c)"
  shows "lock_inv (updateFoldersWithLockedContent c)"
  using assms index_after_update[of c]
  by (simp add: lock_inv_def registry_canonical_alt)

section \<open>The query loops\<close>

lemma directly_locked_loop_iff:
  "directly_locked_loop t lf \<longleftrightarrow> (\<exists>l\<in>set lf. t = normalizePath l)"
  by (induction lf) auto

lemma locked_loop_iff:
  "locked_loop t lf \<longleftrightarrow> (\<exists>l\<in>set lf. t = normalizePath l \<or> prefix (normalizePath l @ ''/'') t)"
  by (induction lf) (auto simp: Let_def)

lemma isPathLocked_iff_general:
  "isPathLocked c P \<longleftrightarrow>
     (\<exists>l\<in>set (lockedFilesOf c). normalizePath P = normalizePath l \<or> prefix (normalizePath l @ ''/'') (normalizePath P))"
  by (auto simp: isPathLocked_def Let_def locked_loop_iff)

lemma marked_loop_iff:
  "marked_loop t ms \<longleftrightarrow> (\<exists>m\<in>set ms. m = t \<or> prefix (t @ ''/'') m)"
  by (induction ms) auto

lemma detailed_loop_find:
  "detailed_loop t lf = find (\<lambda>l. prefix (t @ ''/'') (normalizePath l)) lf"
  by (induction lf) auto

lemma find_normalized:
  assumes "list_all (\<lambda>e. normalizePath e = e) lf"
  shows "find (\<lambda>l. prefix q (normalizePath l)) lf = find (\<lambda>l. prefix q l) lf"
  using assms by (induction lf) auto

lemma containsLockedPath_scan:
  assumes idx: "set (foldersOf c) = closure (lockedFilesOf c)"
    and norm: "registry_canonical c"
  shows "containsLockedPath c P = find (\<lambda>L. prefix (normalizePath P @ ''/'') L) (lockedFilesOf c)"
proof -
  let ?t = "normalizePath P" and ?lf = "lockedFilesOf c"
  have scan: "detailed_loop ?t ?lf = find (\<lambda>L. prefix (?t @ ''/'') L) ?lf"
    using norm by (simp add: detailed_loop_find find_normalized registry_canonical_alt)
  show ?thesis
  proof (cases "foldersOf c \<noteq> [] \<and> \<not> marked_loop ?t (foldersOf c)")
    case True
    then have "?t \<notin> set (foldersOf c)" by (auto simp: marked_loop_iff)
    with idx have "\<not> (\<exists>e\<in>set ?lf. prefix (?t @ ''/'') e)" by (simp add: closure_iff)
    then have "find (\<lambda>L. prefix (?t @ ''/'') L) ?lf = None" by (simp add: find_None_iff)
    with True show ?thesis by (simp add: containsLockedPath_def Let_def)
  next
    case False
    then show ?thesis using scan by (auto simp: containsLockedPath_def Let_def)
  qed
qed

section \<open>The removal loop\<close>

lemma remove_loop_fst: "fst (remove_loop ps lf m) = fold remove1 ps lf"
  by (induction ps lf m rule: remove_loop.induct) (auto simp: remove1_idem)

lemma remove_loop_True: "snd (remove_loop ps lf True)"
  by (induction ps lf True rule: remove_loop.induct) auto

lemma length_fold_remove1: "length (fold remove1 ps lf) \<le> length lf"
proof (induction ps arbitrary: lf)
  case Nil
  then show ?case by simp
next
  case (Cons p ps)
  have "length (fold remove1 ps (remove1 p lf)) \<le> length (remove1 p lf)" by (rule Cons.IH)
  also have "\<dots> \<le> length lf" by (cases "p \<in> set lf") (simp_all add: length_remove1 remove1_idem)
  finally show ?case by simp
qed

lemma remove_loop_snd:
  "snd (remove_loop ps lf m) \<longleftrightarrow> m \<or> length (fold remove1 ps lf) < length lf"
proof (induction ps lf m rule: remove_loop.induct)
  case (1 lf modified)
  then show ?case by simp
next
  case (2 p rest lf modified)
  show ?case
  proof (cases "p \<in> set lf")
    case True
    then have "length lf > 0" by (cases lf) auto
    with True have "length (remove1 p lf) < length lf"
      by (simp add: length_remove1)
    with length_fold_remove1[of rest "remove1 p lf"]
    have "length (fold remove1 rest (remove1 p lf)) < length lf" by simp
    with True show ?thesis by (simp add: remove_loop_True)
  next
    case False
    with 2 show ?thesis by (simp add: remove1_idem)
  qed
qed

lemma fold_remove1_distinct:
  "distinct lf \<Longrightarrow> fold remove1 ps lf = filter (\<lambda>e. e \<notin> set ps) lf"
proof (induction ps arbitrary: lf)
  case Nil
  then show ?case by simp
next
  case (Cons p ps)
  from Cons.prems have r: "remove1 p lf = filter (\<lambda>e. e \<noteq> p) lf"
    by (simp add: distinct_remove1_removeAll removeAll_filter_not_eq) metis
  have "fold remove1 ps (remove1 p lf) = filter (\<lambda>e. e \<notin> set ps) (remove1 p lf)"
    using Cons.prems by (intro Cons.IH) simp
  then show ?case by (auto simp: r intro: filter_cong)
qed

lemma length_filter_less_iff: "length (filter Q xs) < length xs \<longleftrightarrow> (\<exists>x\<in>set xs. \<not> Q x)"
  by (metis filter_True length_filter_less linorder_neq_iff order_less_irrefl filter_id_conv)

lemma not_under_self: "\<not> under t t"
  by (simp add: under_def prefix_def)

lemma removeLockForPath_Some:
  assumes lf: "lockedFiles c = Some lf" and d: "distinct lf"
  shows "removeLockForPath c P =
           (if \<exists>e\<in>set lf. e = normalizePath P \<or> under (normalizePath P) e
            then (updateFoldersWithLockedContent (c\<lparr>lockedFiles := Some (pruned (normalizePath P) lf)\<rparr>), True)
            else (c, False))"
proof -
  let ?t = "normalizePath P"
  define lf1 where "lf1 = (if ?t \<in> set lf then remove1 ?t lf else lf)"
  define m1 where "m1 \<longleftrightarrow> ?t \<in> set lf"
  define ps where "ps = filter (prefix (?t @ ''/'')) lf1"
  have "remove1 ?t lf = filter (\<lambda>e. e \<noteq> ?t) lf"
    using d by (simp add: distinct_remove1_removeAll removeAll_filter_not_eq) metis
  moreover have "filter (\<lambda>e. e \<noteq> ?t) lf = lf" if "?t \<notin> set lf"
    using that by (auto simp: filter_id_conv)
  ultimately have lf1: "lf1 = filter (\<lambda>e. e \<noteq> ?t) lf"
    by (simp add: lf1_def)
  have d1: "distinct lf1" using d by (simp add: lf1)
  have lf2: "fst (remove_loop ps lf1 m1) = pruned ?t lf"
    using d1 by (auto simp: remove_loop_fst fold_remove1_distinct ps_def lf1 pruned_def under_def
        intro: filter_cong)
  have "snd (remove_loop ps lf1 m1) \<longleftrightarrow> m1 \<or> (\<exists>e\<in>set lf1. under ?t e)"
    using d1 by (auto simp: remove_loop_snd fold_remove1_distinct length_filter_less_iff ps_def under_def)
  then have m2: "snd (remove_loop ps lf1 m1) \<longleftrightarrow> (\<exists>e\<in>set lf. e = ?t \<or> under ?t e)"
    using not_under_self[of ?t] by (auto simp: m1_def lf1)
  have unchanged: "pruned ?t lf = lf" if "\<not> (\<exists>e\<in>set lf. e = ?t \<or> under ?t e)"
    using that by (auto simp: pruned_def filter_id_conv)
  have "removeLockForPath c P =
          (if snd (remove_loop ps lf1 m1)
           then (updateFoldersWithLockedContent (c\<lparr>lockedFiles := Some (fst (remove_loop ps lf1 m1))\<rparr>), True)
           else (c\<lparr>lockedFiles := Some (fst (remove_loop ps lf1 m1))\<rparr>, False))"
    by (auto simp: removeLockForPath_def lf Let_def lf1_def m1_def ps_def split: prod.splits)
  also have "\<dots> = (if \<exists>e\<in>set lf. e = ?t \<or> under ?t e
            then (updateFoldersWithLockedContent (c\<lparr>lockedFiles := Some (pruned ?t lf)\<rparr>), True)
            else (c, False))"
    using unchanged lf by (simp add: lf2 m2)
  finally show ?thesis .
qed

lemma removeLockForPath_None: "lockedFiles c = None \<Longrightarrow> removeLockForPath c P = (c, False)"
  by (simp add: removeLockForPath_def)

lemma lockedFilesOf_set [simp]: "lockedFilesOf (c\<lparr>lockedFiles := Some lf\<rparr>) = lf"
  by (simp add: lockedFilesOf_def)

lemma removeLockForPath_registry:
  assumes "distinct (lockedFilesOf c)"
  shows "lockedFilesOf (fst (removeLockForPath c P)) = pruned (normalizePath P) (lockedFilesOf c)"
proof (cases "lockedFiles c")
  case None
  then show ?thesis by (simp add: removeLockForPath_None lockedFilesOf_def pruned_def)
next
  case (Some lf)
  with assms have d: "distinct lf" by (simp add: lockedFilesOf_def)
  have "pruned (normalizePath P) lf = lf" if "\<not> (\<exists>e\<in>set lf. e = normalizePath P \<or> under (normalizePath P) e)"
    using that by (auto simp: pruned_def filter_id_conv)
  then show ?thesis
    using Some by (auto simp: removeLockForPath_Some[OF Some d] lockedFilesOf_def)
qed

lemma removeLockForPath_modified:
  assumes "distinct (lockedFilesOf c)"
  shows "snd (removeLockForPath c P) \<longleftrightarrow>
           (\<exists>e\<in>set (lockedFilesOf c). e = normalizePath P \<or> under (normalizePath P) e)"
proof (cases "lockedFiles c")
  case None
  then show ?thesis by (simp add: removeLockForPath_None lockedFilesOf_def)
next
  case (Some lf)
  with assms have d: "distinct lf" by (simp add: lockedFilesOf_def)
  show ?thesis using Some by (simp add: removeLockForPath_Some[OF Some d] lockedFilesOf_def)
qed

section \<open>The relabelling loop\<close>

lemma apply_updates_True: "snd (apply_updates U lf True)"
  by (induction U lf True rule: apply_updates.induct) (auto simp: Let_def)

lemma apply_updates_unmodified:
  "\<not> snd (apply_updates U lf m) \<Longrightarrow> fst (apply_updates U lf m) = lf \<and> \<not> m"
  by (induction U lf m rule: apply_updates.induct) (auto simp: Let_def apply_updates_True split: if_splits)

lemma apply_updates_subset: "set (fst (apply_updates U lf m)) \<subseteq> set lf \<union> snd ` set U"
proof (induction U lf m rule: apply_updates.induct)
  case (1 lf modified)
  then show ?case by simp
next
  case (2 oldPath newPath rest lf modified)
  show ?case
  proof (cases "oldPath \<in> set lf")
    case True
    define lf' where "lf' = remove1 oldPath lf"
    define lf'' where "lf'' = (if newPath \<notin> set lf' then lf' @ [newPath] else lf')"
    have "set (fst (apply_updates rest lf'' True)) \<subseteq> set lf'' \<union> snd ` set rest"
      using 2(1)[OF True lf'_def lf''_def] .
    moreover have "set lf'' \<subseteq> set lf \<union> {newPath}"
      using set_remove1_subset[of oldPath lf] by (auto simp: lf''_def lf'_def)
    ultimately show ?thesis using True by (auto simp: Let_def lf''_def lf'_def)
  next
    case False
    with 2(2)[OF False] show ?thesis by auto
  qed
qed

lemma apply_updates_distinct: "distinct lf \<Longrightarrow> distinct (fst (apply_updates U lf m))"
  by (induction U lf m rule: apply_updates.induct) (auto simp: Let_def)

text \<open>
  When no new path is an old path still to be processed, the loop replaces every old path by
  its new path.
\<close>

lemma apply_updates_exact:
  assumes "distinct lf" "distinct (map fst U)" "fst ` set U \<subseteq> set lf"
    and "\<forall>(old, new)\<in>set U. new = old \<or> new \<notin> fst ` set U"
  shows "set (fst (apply_updates U lf m)) = (set lf - fst ` set U) \<union> snd ` set U
         \<and> (snd (apply_updates U lf m) \<longleftrightarrow> m \<or> U \<noteq> [])"
  using assms
proof (induction U arbitrary: lf m)
  case Nil
  then show ?case by simp
next
  case (Cons u U)
  obtain old new where u: "u = (old, new)" by (cases u)
  define lf' where "lf' = remove1 old lf"
  define lf'' where "lf'' = (if new \<notin> set lf' then lf' @ [new] else lf')"
  from Cons.prems u have old_in: "old \<in> set lf" and old_notin: "old \<notin> fst ` set U"
    and new_ok: "new = old \<or> new \<notin> fst ` set U"
    by auto
  have set'': "set lf'' = (set lf - {old}) \<union> {new}"
    using Cons.prems(1) by (auto simp: lf''_def lf'_def)
  have d'': "distinct lf''" using Cons.prems(1) by (simp add: lf''_def lf'_def)
  have sub: "fst ` set U \<subseteq> set lf''"
    using Cons.prems(3) old_notin by (auto simp: set'')
  have ni: "\<forall>(old, new)\<in>set U. new = old \<or> new \<notin> fst ` set U"
    using Cons.prems(4) by auto
  have IH: "set (fst (apply_updates U lf'' True)) = (set lf'' - fst ` set U) \<union> snd ` set U"
    using Cons.IH[OF d'' _ sub ni, of True] Cons.prems(2) by simp
  have step: "apply_updates (u # U) lf m = apply_updates U lf'' True"
    using old_in by (simp add: u Let_def lf''_def lf'_def)
  have "new \<notin> fst ` set U" using new_ok old_notin by auto
  then have "set (fst (apply_updates (u # U) lf m)) = (set lf - fst ` set (u # U)) \<union> snd ` set (u # U)"
    unfolding step IH set'' using u by auto
  moreover have "snd (apply_updates (u # U) lf m)"
    unfolding step by (rule apply_updates_True)
  ultimately show ?case by simp
qed

lemma collect_updates_fst:
  "map fst (collect_updates pre D lf) = filter (prefix pre) lf"
  by (simp add: collect_updates_def comp_def)

lemma collect_updates_set:
  "set (collect_updates pre D lf) = (\<lambda>e. (e, D @ ''/'' @ drop (length pre) e)) ` {e \<in> set lf. prefix pre e}"
  by (auto simp: collect_updates_def)

section \<open>Moving locks\<close>

lemma moveLockForPath_None: "lockedFiles c = None \<Longrightarrow> moveLockForPath c S D = (c, False)"
  by (simp add: moveLockForPath_def)

lemma moveLockForPath_Some:
  assumes "lockedFiles c = Some lf0"
  shows "moveLockForPath c S D =
     (let lf1 = relabel (normalizePath S) (normalizePath D) lf0;
          r = apply_updates (collect_updates (normalizePath S @ ''/'') (normalizePath D) lf1) lf1
                (normalizePath S \<in> set lf0)
      in if snd r then (updateFoldersWithLockedContent (c\<lparr>lockedFiles := Some (fst r)\<rparr>), True)
         else (c\<lparr>lockedFiles := Some (fst r)\<rparr>, False))"
  using assms
  by (auto simp: moveLockForPath_def Let_def relabel_def split: prod.splits)

lemma relabel_set:
  "distinct lf0 \<Longrightarrow> set (relabel S D lf0) = (if S \<in> set lf0 then insert D (set lf0 - {S}) else set lf0)"
  by (auto simp: relabel_def Let_def)

lemma relabel_subset: "set (relabel S D lf0) \<subseteq> insert D (set lf0)"
  using set_remove1_subset[of S lf0] by (auto simp: relabel_def Let_def)

lemma relabel_distinct: "distinct lf0 \<Longrightarrow> distinct (relabel S D lf0)"
  by (auto simp: relabel_def Let_def)

lemma relabel_unchanged: "S \<notin> set lf0 \<Longrightarrow> relabel S D lf0 = lf0"
  by (simp add: relabel_def)

lemma reroot_under:
  assumes "\<not> under S D" "\<not> under D S" "under S (D @ ''/'' @ rel)"
  shows "D = S"
proof -
  from assms(3) have "prefix (S @ ''/'') ((D @ ''/'') @ rel)" by (simp add: under_def)
  moreover have "prefix (D @ ''/'') ((D @ ''/'') @ rel)" by simp
  ultimately have "prefix (S @ ''/'') (D @ ''/'') \<or> prefix (D @ ''/'') (S @ ''/'')"
    using prefix_same_cases by blast
  then show ?thesis
    using assms(1,2) unfolding under_def prefix_snoc by auto
qed

lemma reroot_same: "under S e \<Longrightarrow> S @ ''/'' @ drop (length (S @ ''/'')) e = e"
  by (auto simp: under_def prefix_def)


lemma moveLockForPath_exact:
  assumes d: "distinct (lockedFilesOf c)"
    and n1: "\<not> under (normalizePath S) (normalizePath D)"
    and n2: "\<not> under (normalizePath D) (normalizePath S)"
  shows "set (lockedFilesOf (fst (moveLockForPath c S D))) =
           {e \<in> set (lockedFilesOf c). e \<noteq> normalizePath S \<and> \<not> under (normalizePath S) e}
           \<union> (if normalizePath S \<in> set (lockedFilesOf c) then {normalizePath D} else {})
           \<union> (\<lambda>e. normalizePath D @ ''/'' @ drop (length (normalizePath S @ ''/'')) e)
                ` {e \<in> set (lockedFilesOf c). under (normalizePath S) e}
       \<and> distinct (lockedFilesOf (fst (moveLockForPath c S D)))
       \<and> (snd (moveLockForPath c S D) \<longleftrightarrow>
           (\<exists>e\<in>set (lockedFilesOf c). e = normalizePath S \<or> under (normalizePath S) e))"
proof (cases "lockedFiles c")
  case None
  then show ?thesis by (simp add: moveLockForPath_None lockedFilesOf_def)
next
  case (Some lf0)
  let ?S = "normalizePath S" and ?D = "normalizePath D"
  define new where "new = (\<lambda>e. ?D @ ''/'' @ drop (length (?S @ ''/'')) e)"
  from Some have lf0: "lockedFilesOf c = lf0" by (simp add: lockedFilesOf_def)
  with d have d0: "distinct lf0" by simp
  define lf1 where "lf1 = relabel ?S ?D lf0"
  define U where "U = collect_updates (?S @ ''/'') ?D lf1"
  define r where "r = apply_updates U lf1 (?S \<in> set lf0)"
  have set1: "set lf1 = (if ?S \<in> set lf0 then insert ?D (set lf0 - {?S}) else set lf0)"
    using d0 by (simp add: lf1_def relabel_set)
  have d1: "distinct lf1" using d0 by (simp add: lf1_def relabel_distinct)
  have olds: "{e \<in> set lf1. under ?S e} = {e \<in> set lf0. under ?S e}"
    using n1 not_under_self[of ?S] by (auto simp: set1)
  have "set U = (\<lambda>e. (e, new e)) ` {e \<in> set lf1. under ?S e}"
    unfolding U_def collect_updates_set new_def under_def by simp
  then have setU: "set U = (\<lambda>e. (e, new e)) ` {e \<in> set lf0. under ?S e}"
    by (simp only: olds)
  have fstU: "fst ` set U = {e \<in> set lf0. under ?S e}"
    unfolding setU image_image by simp
  have sndU: "snd ` set U = new ` {e \<in> set lf0. under ?S e}"
    unfolding setU image_image by simp
  have dU: "distinct (map fst U)" using d1 by (simp add: U_def collect_updates_fst)
  have subU: "fst ` set U \<subseteq> set lf1" using olds fstU by blast
  have ni: "\<forall>(old, new)\<in>set U. new = old \<or> new \<notin> fst ` set U"
  proof -
    have "nw = old" if m: "(old, nw) \<in> set U" and m': "nw \<in> fst ` set U" for old nw
    proof -
    from m' have u: "under ?S nw" by (simp add: fstU)
    from m have o: "under ?S old" and n: "nw = new old"
      by (auto simp: setU)
    from u n have "under ?S (?D @ ''/'' @ drop (length (?S @ ''/'')) old)" by (simp add: new_def)
    then have "?D = ?S" by (rule reroot_under[OF n1 n2])
    with n have "nw = ?S @ ''/'' @ drop (length (?S @ ''/'')) old" by (simp add: new_def)
    with o show "nw = old" by (simp only: reroot_same)
    qed
    then show ?thesis by blast
  qed
  from apply_updates_exact[OF d1 dU subU ni, of "?S \<in> set lf0"]
  have res: "set (fst r) = (set lf1 - fst ` set U) \<union> snd ` set U"
    and md: "snd r \<longleftrightarrow> ?S \<in> set lf0 \<or> U \<noteq> []"
    by (simp_all add: r_def)
  have dr: "distinct (fst r)" using d1 by (simp add: r_def apply_updates_distinct)
  have mv: "moveLockForPath c S D =
      (if snd r then (updateFoldersWithLockedContent (c\<lparr>lockedFiles := Some (fst r)\<rparr>), True)
       else (c\<lparr>lockedFiles := Some (fst r)\<rparr>, False))"
    by (simp add: moveLockForPath_Some[OF Some] Let_def r_def U_def lf1_def)
  have reg: "lockedFilesOf (fst (moveLockForPath c S D)) = fst r"
    and fl: "snd (moveLockForPath c S D) = snd r"
    by (simp_all add: mv)
  have "U = [] \<longleftrightarrow> {e \<in> set lf0. under ?S e} = {}"
    using fstU by (metis image_is_empty set_empty)
  then have "U \<noteq> [] \<longleftrightarrow> (\<exists>e\<in>set lf0. under ?S e)" by blast
  with md have md': "snd r \<longleftrightarrow> (\<exists>e\<in>set lf0. e = ?S \<or> under ?S e)" by blast
  have "set lf1 - {e \<in> set lf0. under ?S e} =
          {e \<in> set lf0. e \<noteq> ?S \<and> \<not> under ?S e} \<union> (if ?S \<in> set lf0 then {?D} else {})"
    unfolding set1 using n1 not_under_self[of ?S] by auto
  then have "set (fst r) = {e \<in> set lf0. e \<noteq> ?S \<and> \<not> under ?S e}
         \<union> (if ?S \<in> set lf0 then {?D} else {})
         \<union> new ` {e \<in> set lf0. under ?S e}"
    unfolding res fstU sndU by simp
  with dr md' show ?thesis
    unfolding reg fl lf0 new_def by simp
qed

section \<open>The invariant is preserved\<close>

lemma foldersOf_set [simp]: "foldersOf (c\<lparr>lockedFiles := x\<rparr>) = foldersOf c"
  by (simp add: foldersOf_def)

lemma lock_inv_same:
  "lock_inv c \<Longrightarrow> lockedFilesOf c' = lockedFilesOf c \<Longrightarrow> foldersOf c' = foldersOf c \<Longrightarrow> lock_inv c'"
  by (simp add: lock_inv_def registry_canonical_alt)

lemma lock_inv_rebuilt:
  assumes "list_all (\<lambda>e. normalizePath e = e) lf" "distinct lf"
  shows "lock_inv (updateFoldersWithLockedContent (c\<lparr>lockedFiles := Some lf\<rparr>))"
  using assms by (intro lock_inv_update) (simp_all add: registry_canonical_alt)

lemma lock_inv_initial:
  "lock_inv \<lparr>lockedFiles = None, foldersWithLockedContent = None\<rparr>"
  by (simp add: lock_inv_def registry_canonical_alt lockedFilesOf_def foldersOf_def closure_Nil)

lemma lock_inv_addLock:
  assumes "lock_inv c"
  shows "lock_inv (fst (addLock c P))"
proof -
  let ?lf = "lockedFilesOf c"
  from assms have n: "list_all (\<lambda>e. normalizePath e = e) ?lf" and d: "distinct ?lf"
    by (simp_all add: lock_inv_def registry_canonical_alt)
  have lf: "(case lockedFiles c of None \<Rightarrow> [] | Some lf \<Rightarrow> lf) = ?lf"
    by (simp add: lockedFilesOf_def)
  show ?thesis
  proof (cases "normalizePath P \<in> set ?lf")
    case True
    then have "fst (addLock c P) = c\<lparr>lockedFiles := Some ?lf\<rparr>"
      by (simp add: addLock_def Let_def lf)
    moreover have "lock_inv (c\<lparr>lockedFiles := Some ?lf\<rparr>)"
      using assms by (rule lock_inv_same) simp_all
    ultimately show ?thesis by simp
  next
    case False
    then have "fst (addLock c P) =
        updateFoldersWithLockedContent (c\<lparr>lockedFiles := Some (?lf @ [normalizePath P])\<rparr>)"
      by (simp add: addLock_def Let_def lf)
    moreover have "list_all (\<lambda>e. normalizePath e = e) (?lf @ [normalizePath P])"
      using n by (simp add: normalizePath_idem)
    moreover have "distinct (?lf @ [normalizePath P])" using d False by simp
    ultimately show ?thesis by (simp add: lock_inv_rebuilt)
  qed
qed

lemma lock_inv_removeLock:
  assumes "lock_inv c"
  shows "lock_inv (fst (removeLock c P))"
proof (cases "lockedFiles c")
  case None
  then have "fst (removeLock c P) = c\<lparr>lockedFiles := Some []\<rparr>"
    by (simp add: removeLock_def)
  moreover have e: "lockedFilesOf c = []" using None by (simp add: lockedFilesOf_def)
  have "lock_inv (c\<lparr>lockedFiles := Some []\<rparr>)"
    using assms by (rule lock_inv_same) (simp_all add: e)
  ultimately show ?thesis by simp
next
  case (Some lf)
  then have lf: "lockedFilesOf c = lf" by (simp add: lockedFilesOf_def)
  from assms lf have n: "list_all (\<lambda>e. normalizePath e = e) lf" and d: "distinct lf"
    by (simp_all add: lock_inv_def registry_canonical_alt)
  show ?thesis
  proof (cases "normalizePath P \<in> set lf")
    case True
    then have "fst (removeLock c P) =
        updateFoldersWithLockedContent (c\<lparr>lockedFiles := Some (remove1 (normalizePath P) lf)\<rparr>)"
      by (simp add: removeLock_def Some)
    moreover have "list_all (\<lambda>e. normalizePath e = e) (remove1 (normalizePath P) lf)"
      using n by (auto simp: list_all_iff dest: notin_set_remove1)
    ultimately show ?thesis using d by (simp add: lock_inv_rebuilt)
  next
    case False
    then show ?thesis using assms by (simp add: removeLock_def Some)
  qed
qed

lemma lock_inv_removeLockForPath:
  assumes "lock_inv c"
  shows "lock_inv (fst (removeLockForPath c P))"
proof (cases "lockedFiles c")
  case None
  then show ?thesis using assms by (simp add: removeLockForPath_None)
next
  case (Some lf)
  then have lf: "lockedFilesOf c = lf" by (simp add: lockedFilesOf_def)
  from assms lf have n: "list_all (\<lambda>e. normalizePath e = e) lf" and d: "distinct lf"
    by (simp_all add: lock_inv_def registry_canonical_alt)
  have "list_all (\<lambda>e. normalizePath e = e) (pruned (normalizePath P) lf)"
    using n by (simp add: pruned_def list_all_iff)
  moreover have "distinct (pruned (normalizePath P) lf)" using d by (simp add: pruned_def)
  ultimately show ?thesis
    using assms by (simp add: removeLockForPath_Some[OF Some d] lock_inv_rebuilt)
qed

lemma lock_inv_copyLockForPath:
  assumes "lock_inv c"
  shows "lock_inv (fst (copyLockForPath c S D))"
proof (cases "lockedFiles c")
  case None
  then show ?thesis using assms by (simp add: copyLockForPath_def)
next
  case (Some lf)
  then have lf: "lockedFilesOf c = lf" by (simp add: lockedFilesOf_def)
  from assms lf have n: "list_all (\<lambda>e. normalizePath e = e) lf" and d: "distinct lf"
    by (simp_all add: lock_inv_def registry_canonical_alt)
  show ?thesis
  proof (cases "normalizePath S \<in> set lf \<and> normalizePath D \<notin> set lf")
    case True
    then have "fst (copyLockForPath c S D) =
        updateFoldersWithLockedContent (c\<lparr>lockedFiles := Some (lf @ [normalizePath D])\<rparr>)"
      by (simp add: copyLockForPath_def Some Let_def)
    moreover have "list_all (\<lambda>e. normalizePath e = e) (lf @ [normalizePath D])"
      using n by (simp add: normalizePath_idem)
    moreover have "distinct (lf @ [normalizePath D])" using d True by simp
    ultimately show ?thesis by (simp add: lock_inv_rebuilt)
  next
    case False
    then have "fst (copyLockForPath c S D) = c"
      by (auto simp: copyLockForPath_def Some Let_def)
    with assms show ?thesis by simp
  qed
qed

lemma collect_updates_canonical:
  assumes "canonical D" "list_all canonical lf"
  shows "list_all canonical (map snd (collect_updates (S @ ''/'') D lf))"
proof -
  have "canonical (D @ ''/'' @ drop (length (S @ ''/'')) e)"
    if "e \<in> set lf" "prefix (S @ ''/'') e" for e
  proof -
    from that(2) obtain rel where e: "e = (S @ ''/'') @ rel" by (auto simp: prefix_def)
    then have rel: "drop (length (S @ ''/'')) e = rel" by simp
    from that(1) assms(2) have "canonical e" by (simp add: list_all_iff)
    with e have "canonical (S @ ''/'' @ rel)" by simp
    with assms(1) have "canonical (D @ ''/'' @ rel)" by (rule canonical_reroot)
    then show ?thesis by (simp only: rel)
  qed
  then show ?thesis by (auto simp: collect_updates_def list_all_iff)
qed

lemma lock_inv_moveLockForPath:
  assumes "lock_inv c"
  shows "lock_inv (fst (moveLockForPath c S D))"
proof (cases "lockedFiles c")
  case None
  then show ?thesis using assms by (simp add: moveLockForPath_None)
next
  case (Some lf0)
  let ?S = "normalizePath S" and ?D = "normalizePath D"
  from Some have lf0: "lockedFilesOf c = lf0" by (simp add: lockedFilesOf_def)
  from assms lf0 have n0: "list_all canonical lf0" and d0: "distinct lf0"
    by (simp_all add: lock_inv_def registry_canonical_alt canonical_iff list_all_iff)
  define lf1 where "lf1 = relabel ?S ?D lf0"
  define U where "U = collect_updates (?S @ ''/'') ?D lf1"
  define r where "r = apply_updates U lf1 (?S \<in> set lf0)"
  have cD: "canonical ?D" by (rule canonical_normalizePath)
  have n1: "list_all canonical lf1"
    using n0 cD relabel_subset[of ?S ?D lf0] by (auto simp: lf1_def list_all_iff)
  have d1: "distinct lf1" using d0 by (simp add: lf1_def relabel_distinct)
  have "list_all canonical (map snd U)"
    unfolding U_def using cD n1 by (rule collect_updates_canonical)
  then have nr: "list_all canonical (fst r)"
    using n1 apply_updates_subset[of U lf1 "?S \<in> set lf0"]
    by (auto simp: r_def list_all_iff)
  have dr: "distinct (fst r)" using d1 by (simp add: r_def apply_updates_distinct)
  have mv: "moveLockForPath c S D =
      (if snd r then (updateFoldersWithLockedContent (c\<lparr>lockedFiles := Some (fst r)\<rparr>), True)
       else (c\<lparr>lockedFiles := Some (fst r)\<rparr>, False))"
    by (simp add: moveLockForPath_Some[OF Some] Let_def r_def U_def lf1_def)
  show ?thesis
  proof (cases "snd r")
    case True
    moreover from nr have "list_all (\<lambda>e. normalizePath e = e) (fst r)"
      by (simp add: list_all_iff canonical_iff)
    ultimately show ?thesis using dr by (simp add: mv lock_inv_rebuilt)
  next
    case False
    then have "\<not> snd (apply_updates U lf1 (?S \<in> set lf0))" by (simp add: r_def)
    from apply_updates_unmodified[OF this]
    have a: "fst (apply_updates U lf1 (?S \<in> set lf0)) = lf1" and b: "?S \<notin> set lf0"
      by blast+
    from a have "fst r = lf1" unfolding r_def .
    note this b
    then have "fst r = lf0" by (simp add: lf1_def relabel_unchanged)
    with False have "fst (moveLockForPath c S D) = c\<lparr>lockedFiles := Some lf0\<rparr>"
      by (simp add: mv)
    moreover have "lock_inv (c\<lparr>lockedFiles := Some lf0\<rparr>)"
      using assms by (rule lock_inv_same) (simp_all add: lf0)
    ultimately show ?thesis by simp
  qed
qed

section \<open>Batch checks\<close>

lemma normalizePath_Nil [simp]: "normalizePath [] = []"
  by (simp add: path_eval)

lemma detailed_loop_Some:
  "detailed_loop t lf = Some l \<Longrightarrow> l \<in> set lf \<and> under t (normalizePath l)"
  by (induction lf) (auto simp: under_def split: if_splits)

lemma containsLockedPath_Some:
  assumes "containsLockedPath c t = Some l"
  shows "l \<in> set (lockedFilesOf c) \<and> under (normalizePath t) (normalizePath l) \<and> l \<noteq> []"
proof -
  from assms have "detailed_loop (normalizePath t) (lockedFilesOf c) = Some l"
    by (auto simp: containsLockedPath_def Let_def split: if_splits)
  then have m: "l \<in> set (lockedFilesOf c)" and u: "under (normalizePath t) (normalizePath l)"
    by (auto dest: detailed_loop_Some)
  from u have "normalizePath l \<noteq> []" by (auto simp: under_def)
  then have "l \<noteq> []" by auto
  with m u show ?thesis by simp
qed

lemma truthy_check:
  assumes "t \<noteq> []"
  shows "truthy (isPathOrContentsLocked c t) \<longleftrightarrow> check_hit c t"
proof (cases "isPathLocked c t")
  case True
  with assms show ?thesis by (simp add: isPathOrContentsLocked_def truthy_def check_hit_def)
next
  case False
  then show ?thesis
    by (cases "containsLockedPath c t")
       (auto simp: isPathOrContentsLocked_def truthy_def check_hit_def dest: containsLockedPath_Some)
qed

lemma the_check: "check_hit c t \<Longrightarrow> the (isPathOrContentsLocked c t) = check_result c t"
  by (auto simp: check_hit_def isPathOrContentsLocked_def check_result_def)

lemma check_loop_contents:
  assumes "[] \<notin> set ts"
  shows "check_loop c True ts acc = acc @ map (check_result c) (filter (check_hit c) ts)"
  using assms
proof (induction ts arbitrary: acc)
  case Nil
  then show ?case by simp
next
  case (Cons t ts)
  then have t: "t \<noteq> []" and ts: "[] \<notin> set ts" by auto
  show ?case
    using Cons.IH[OF ts] truthy_check[OF t, of c] the_check[of c t]
    by (simp add: Let_def)
qed

lemma targets_loop_truthy:
  assumes "[] \<notin> set ts"
  shows "truthy (targets_loop inst contents ts) \<longleftrightarrow>
           (\<exists>t\<in>set ts. if contents then check_hit inst t else isPathLocked inst t)"
  using assms
proof (induction ts)
  case Nil
  then show ?case by (simp add: truthy_def)
next
  case (Cons t ts)
  then have t: "t \<noteq> []" and ts: "[] \<notin> set ts" by auto
  show ?case
    using Cons.IH[OF ts] truthy_check[OF t, of inst] t
    by (auto simp: Let_def truthy_def)
qed

section \<open>The middleware's decision\<close>

lemma config_events:
  "map event FILE_LOCK_CHECK_CONFIGS =
     [''file/list'', ''file/edit'', ''file/chmod'', ''file/copy'', ''file/move'', ''file/delete'',
      ''file/compress'']"
  by (simp add: FILE_LOCK_CHECK_CONFIGS_def)

lemma findConfig_None: "ev \<notin> set (map event FILE_LOCK_CHECK_CONFIGS) \<Longrightarrow> findConfig ev = None"
  by (auto simp: findConfig_def find_None_iff)

lemma findConfig_Some:
  assumes "findConfig ev = Some config"
  shows "ev \<in> set (map event FILE_LOCK_CHECK_CONFIGS) \<and> config \<in> set FILE_LOCK_CHECK_CONFIGS
         \<and> prefix ''file/'' ev \<and> adminOnly config = None
         \<and> (checkContents config \<noteq> Some False \<longleftrightarrow> ev \<noteq> ''file/list'')"
proof -
  from assms have c: "config \<in> set FILE_LOCK_CHECK_CONFIGS" and e: "event config = ev"
    by (auto simp: findConfig_def find_Some_iff)
  from c e show ?thesis
    unfolding FILE_LOCK_CHECK_CONFIGS_def by auto
qed

lemma unlisted_event_forwarded:
  "ev \<notin> set (map event FILE_LOCK_CHECK_CONFIGS) \<Longrightarrow> fileLockMiddleware insts ev data = Next"
  by (simp add: fileLockMiddleware_def findConfig_None)

text \<open>
  The decision for a governed event. The admin flag and an empty candidate list forward the
  request. For a non-admin request of an existing instance whose candidate paths are all
  non-empty strings, the request is rejected exactly when some candidate is locked under the
  operation's check mode.
\<close>

lemma governed_admin:
  "isAdmin data \<Longrightarrow> fileLockMiddleware insts ev data = Next"
  by (auto simp: fileLockMiddleware_def Let_def split: option.splits)

lemma governed_no_targets:
  "findConfig ev = Some config \<Longrightarrow> getTargets config data = [] \<Longrightarrow>
     fileLockMiddleware insts ev data = Next"
  by (auto simp: fileLockMiddleware_def Let_def)

lemma governed_decision:
  assumes cf: "findConfig ev = Some config"
    and na: "\<not> isAdmin data"
    and uu: "instanceUuid data = Some uuid" "uuid \<noteq> []"
    and inst: "insts uuid = Some inst"
    and ts: "getTargets config data \<noteq> []" "[] \<notin> set (getTargets config data)"
  shows "fileLockMiddleware insts ev data = LockedError \<longleftrightarrow>
           (\<exists>t\<in>set (getTargets config data).
               if ev = ''file/list'' then isPathLocked inst t else check_hit inst t)"
proof -
  from findConfig_Some[OF cf]
  have p: "prefix ''file/'' ev" and ao: "adminOnly config = None"
    and cc: "checkContents config \<noteq> Some False \<longleftrightarrow> ev \<noteq> ''file/list''"
    by blast+
  have "fileLockMiddleware insts ev data =
          (if truthy (targets_loop inst (checkContents config \<noteq> Some False) (getTargets config data))
           then LockedError else Next)"
    using p ao na uu inst ts(1)
    by (simp add: fileLockMiddleware_def cf Let_def truthy_def checkTargetsLocked_def)
  then show ?thesis
    using targets_loop_truthy[OF ts(2), of inst "checkContents config \<noteq> Some False"] cc
    by auto
qed

lemma clear_lock_Some:
  "clear_lock insts uuid inst (Some P) = (insts(uuid \<mapsto> fst (removeLockForPath inst P)), Response)"
  by (simp add: clear_lock_def)

text \<open>
  Without the assumption that the registry entries are normalized, the scan compares the
  normalized form of each entry, and a current index still never hides a hit.
\<close>

lemma containsLockedPath_scan_general:
  assumes "index_current c"
  shows "containsLockedPath c P =
           find (\<lambda>L. under (normalizePath P) (normalizePath L)) (lockedFilesOf c)"
proof -
  let ?t = "normalizePath P" and ?lf = "lockedFilesOf c"
  have scan: "detailed_loop ?t ?lf = find (\<lambda>L. under ?t (normalizePath L)) ?lf"
    by (simp add: detailed_loop_find under_def [abs_def])
  show ?thesis
  proof (cases "foldersOf c \<noteq> [] \<and> \<not> marked_loop ?t (foldersOf c)")
    case True
    then have "?t \<notin> set (foldersOf c)" by (auto simp: marked_loop_iff)
    with assms have "?t \<notin> (\<Union>e\<in>set ?lf. set (getParentFolders e))"
      by (simp add: index_current_def set_collectFolders)
    then have "\<not> (\<exists>e\<in>set ?lf. under ?t (normalizePath e))"
      by (simp add: set_getParentFolders under_def)
    then have "find (\<lambda>L. under ?t (normalizePath L)) ?lf = None" by (auto simp: find_None_iff)
    with True show ?thesis by (simp add: containsLockedPath_def Let_def)
  next
    case False
    then show ?thesis using scan by (auto simp: containsLockedPath_def Let_def)
  qed
qed

text \<open>The same without the assumption that the registry has no duplicates.\<close>

lemma fold_remove1_Cons: "x \<notin> set ps \<Longrightarrow> fold remove1 ps (x # xs) = x # fold remove1 ps xs"
  by (induction ps arbitrary: xs) auto

lemma fold_remove1_filter: "fold remove1 (filter Q xs) xs = filter (\<lambda>x. \<not> Q x) xs"
  by (induction xs) (auto simp: fold_remove1_Cons)

lemma removeLockForPath_general:
  "lockedFilesOf (fst (removeLockForPath c P)) =
     filter (\<lambda>e. \<not> under (normalizePath P) e) (remove1 (normalizePath P) (lockedFilesOf c))
   \<and> (snd (removeLockForPath c P) \<longleftrightarrow>
        (\<exists>e\<in>set (lockedFilesOf c). e = normalizePath P \<or> under (normalizePath P) e))"
proof (cases "lockedFiles c")
  case None
  then show ?thesis by (simp add: removeLockForPath_None lockedFilesOf_def)
next
  case (Some lf)
  let ?t = "normalizePath P"
  let ?lf1 = "remove1 ?t lf"
  define m1 where "m1 \<longleftrightarrow> ?t \<in> set lf"
  define ps where "ps = filter (prefix (?t @ ''/'')) ?lf1"
  have lf2: "fst (remove_loop ps ?lf1 m1) = filter (\<lambda>e. \<not> under ?t e) ?lf1"
    by (simp add: remove_loop_fst ps_def fold_remove1_filter under_def)
  have "\<And>e. under ?t e \<Longrightarrow> e \<noteq> ?t" using not_under_self by blast
  then have same: "(\<exists>e\<in>set ?lf1. under ?t e) \<longleftrightarrow> (\<exists>e\<in>set lf. under ?t e)"
    by (metis in_set_remove1)
  have "snd (remove_loop ps ?lf1 m1) \<longleftrightarrow> m1 \<or> (\<exists>e\<in>set ?lf1. under ?t e)"
    by (auto simp: remove_loop_snd ps_def fold_remove1_filter length_filter_less_iff under_def)
  then have m2: "snd (remove_loop ps ?lf1 m1) \<longleftrightarrow> (\<exists>e\<in>set lf. e = ?t \<or> under ?t e)"
    using same by (auto simp: m1_def)
  have "removeLockForPath c P =
          (if snd (remove_loop ps ?lf1 m1)
           then (updateFoldersWithLockedContent (c\<lparr>lockedFiles := Some (fst (remove_loop ps ?lf1 m1))\<rparr>), True)
           else (c\<lparr>lockedFiles := Some (fst (remove_loop ps ?lf1 m1))\<rparr>, False))"
  proof (cases "?t \<in> set lf")
    case True
    then show ?thesis
      by (simp add: removeLockForPath_def Some Let_def split_beta m1_def ps_def)
  next
    case False
    then show ?thesis
      by (simp add: removeLockForPath_def Some Let_def split_beta m1_def ps_def remove1_idem)
  qed
  then show ?thesis
    using Some by (simp add: lf2 m2 lockedFilesOf_def)
qed

section \<open>The code against the registry-level notions\<close>

lemma closure_normalized: "closure (map normalizePath lf) = set (collectFolders lf)"
  by (auto simp: set_collectFolders set_getParentFolders closure_iff)

lemma map_normalizePath_canonical: "list_all canonical lf \<Longrightarrow> map normalizePath lf = lf"
  by (induction lf) (auto simp: normalizePath_canonical)

lemma index_closed_current:
  "set (foldersOf c) = closure (map normalizePath (lockedFilesOf c)) \<longleftrightarrow> index_current c"
  by (simp add: closure_normalized index_current_def)

lemma isPathLocked_locked_in:
  "isPathLocked c P \<longleftrightarrow> locked_in (map normalizePath (lockedFilesOf c)) (normalizePath P)"
  by (auto simp: isPathLocked_iff_general locked_in_def under_def)

lemma first_descendant_None:
  "first_descendant lf p = None \<longleftrightarrow> \<not> contains_lock (map normalizePath lf) p"
  by (auto simp: first_descendant_def contains_lock_def find_None_iff)

lemma first_descendant_Some:
  "first_descendant lf p = Some L \<Longrightarrow> L \<in> set lf \<and> under p (normalizePath L)"
  by (auto simp: first_descendant_def find_Some_iff)

lemma first_descendant_canonical:
  "list_all canonical lf \<Longrightarrow> first_descendant lf p = find (under p) lf"
  unfolding first_descendant_def
  by (induction lf) (auto simp: normalizePath_canonical)

lemma containsLockedPath_first_descendant:
  assumes "set (foldersOf c) = closure (map normalizePath (lockedFilesOf c))"
  shows "containsLockedPath c P = first_descendant (lockedFilesOf c) (normalizePath P)"
  using assms containsLockedPath_scan_general [of c P]
  by (simp add: index_closed_current first_descendant_def)

lemma check_hit_offending:
  assumes "set (foldersOf c) = closure (map normalizePath (lockedFilesOf c))"
  shows "check_hit c t \<longleftrightarrow> offending c t"
  using containsLockedPath_first_descendant [OF assms, of t]
    first_descendant_None [of "lockedFilesOf c" "normalizePath t"]
  by (auto simp: check_hit_def offending_def isPathOrContentsLocked_def isPathLocked_locked_in)

lemma check_result_reported:
  assumes "set (foldersOf c) = closure (map normalizePath (lockedFilesOf c))"
  shows "check_result c t = reported c t"
  using containsLockedPath_first_descendant [OF assms, of t]
  by (simp add: check_result_def reported_def isPathLocked_locked_in)

section \<open>Claims about the queries\<close>

text \<open>
  C6, as amended. For every instance and every path \<open>P\<close>, \<^verbatim>\<open>isPathLocked(instance, P)\<close> is true
  exactly when the normalized form of \<open>P\<close> equals the normalized form of some registry entry
  \<open>E\<close>, or the normalized form of \<open>E\<close> followed by a slash is a prefix of the normalized \<open>P\<close>.
  The test is bounded by the separator. On a registry whose entries are in canonical form the
  normalized form of an entry is the entry itself, which gives the condition on the entries.
  The normalized form of \<open>P\<close> is canonical.
\<close>

theorem isPathLocked_separator_bounded:
  "(isPathLocked c P \<longleftrightarrow>
      (\<exists>E\<in>set (lockedFilesOf c).
          normalizePath P = normalizePath E \<or> under (normalizePath E) (normalizePath P)))
   \<and> (list_all canonical (lockedFilesOf c) \<longrightarrow>
        (isPathLocked c P \<longleftrightarrow>
           (\<exists>E\<in>set (lockedFilesOf c). normalizePath P = E \<or> under E (normalizePath P))))
   \<and> canonical (normalizePath P)"
proof -
  have g: "isPathLocked c P \<longleftrightarrow>
      (\<exists>E\<in>set (lockedFilesOf c).
          normalizePath P = normalizePath E \<or> under (normalizePath E) (normalizePath P))"
    by (simp add: isPathLocked_iff_general under_def)
  have "isPathLocked c P \<longleftrightarrow>
           (\<exists>E\<in>set (lockedFilesOf c). normalizePath P = E \<or> under E (normalizePath P))"
    if "list_all canonical (lockedFilesOf c)"
  proof -
    from that have "\<And>E. E \<in> set (lockedFilesOf c) \<Longrightarrow> normalizePath E = E"
      by (simp add: list_all_iff normalizePath_canonical)
    then show ?thesis unfolding g by auto
  qed
  with g show ?thesis by (simp add: canonical_normalizePath)
qed

theorem isPathLocked_separator_bounded_witness:
  "list_all canonical (lockedFilesOf (cfg [''a''] []))
   \<and> isPathLocked (cfg [''a''] []) ''a/b''
   \<and> \<not> isPathLocked (cfg [''a''] []) ''ab''
   \<and> isPathLocked (cfg [''a''] []) ''a''
   \<and> isPathLocked (cfg [''a''] []) ''a//b/''
   \<and> isPathLocked (cfg [''a''] []) [CHR ''a'', CHR 0x5C, CHR ''b'']"
proof -
  have h: "list_all canonical (lockedFilesOf (cfg [''a''] []))"
    by (simp add: cfg_eval canonical_def)
  show ?thesis
    using h isPathLocked_separator_bounded [of "cfg [''a''] []" "''a/b''"]
      isPathLocked_separator_bounded [of "cfg [''a''] []" "''ab''"]
      isPathLocked_separator_bounded [of "cfg [''a''] []" "''a''"]
      isPathLocked_separator_bounded [of "cfg [''a''] []" "''a//b/''"]
      isPathLocked_separator_bounded [of "cfg [''a''] []" "[CHR ''a'', CHR 0x5C, CHR ''b'']"]
    by (simp add: cfg_eval path_eval under_def)
qed

theorem isPathLocked_separator_bounded_counterexample:
  "isPathLocked (cfg [''a/''] []) ''a''
   \<and> lockedFilesOf (cfg [''a/''] []) = [''a/'']
   \<and> normalizePath ''a'' \<noteq> ''a/''
   \<and> \<not> under ''a/'' (normalizePath ''a'')"
  by (simp add: isPathLocked_def Let_def cfg_eval path_eval under_def)

text \<open>
  C5, as amended. When the index is the ancestor closure of the normalized registry entries,
  \<^verbatim>\<open>containsLockedPath(instance, P)\<close> equals the scan of the registry that compares each entry
  in its normalized form: it returns the first stored entry \<open>L\<close> whose normalized form the
  normalized \<open>P\<close> followed by a slash prefixes, when there is one, and null otherwise. The
  fast path never suppresses a positive answer. On a registry whose entries are in canonical
  form this is the plain scan of the stored entries, and the hypothesis is the closure of the
  registry itself. The normalized form of \<open>P\<close> is canonical.
\<close>

theorem containsLockedPath_refines_plain_scan:
  assumes "set (foldersOf c) = closure (map normalizePath (lockedFilesOf c))"
  shows "containsLockedPath c P = normalized_scan c P
       \<and> ((\<exists>L\<in>set (lockedFilesOf c). under (normalizePath P) (normalizePath L)) \<longrightarrow>
            (\<exists>L\<in>set (lockedFilesOf c).
                under (normalizePath P) (normalizePath L) \<and> containsLockedPath c P = Some L))
       \<and> (\<not> (\<exists>L\<in>set (lockedFilesOf c). under (normalizePath P) (normalizePath L)) \<longrightarrow>
            containsLockedPath c P = None)
       \<and> (list_all canonical (lockedFilesOf c) \<longrightarrow>
            closure (map normalizePath (lockedFilesOf c)) = closure (lockedFilesOf c)
            \<and> containsLockedPath c P = plain_scan c P)
       \<and> canonical (normalizePath P)"
proof -
  let ?lf = "lockedFilesOf c" and ?t = "normalizePath P"
  have eq: "containsLockedPath c P = first_descendant ?lf ?t"
    using assms by (rule containsLockedPath_first_descendant)
  have pos: "\<exists>L\<in>set ?lf. under ?t (normalizePath L) \<and> containsLockedPath c P = Some L"
    if "\<exists>L\<in>set ?lf. under ?t (normalizePath L)"
  proof -
    from that have "contains_lock (map normalizePath ?lf) ?t" by (auto simp: contains_lock_def)
    then have "first_descendant ?lf ?t \<noteq> None" by (simp add: first_descendant_None)
    then obtain L where L: "first_descendant ?lf ?t = Some L" by blast
    with first_descendant_Some[OF L] eq show ?thesis by auto
  qed
  have neg: "containsLockedPath c P = None" if "\<not> (\<exists>L\<in>set ?lf. under ?t (normalizePath L))"
  proof -
    from that have "\<not> contains_lock (map normalizePath ?lf) ?t" by (auto simp: contains_lock_def)
    then show ?thesis by (simp add: eq first_descendant_None)
  qed
  have can: "closure (map normalizePath ?lf) = closure ?lf \<and> containsLockedPath c P = plain_scan c P"
    if "list_all canonical ?lf"
    using that by (simp add: eq first_descendant_canonical plain_scan_def map_normalizePath_canonical)
  from eq pos neg can show ?thesis
    by (simp add: normalized_scan_def canonical_normalizePath)
qed

theorem containsLockedPath_refines_plain_scan_witness:
  "set (foldersOf (cfg [''q'', ''a/b//c.txt/''] [''a'', ''a/b'']))
      = closure (map normalizePath (lockedFilesOf (cfg [''q'', ''a/b//c.txt/''] [''a'', ''a/b''])))
   \<and> containsLockedPath (cfg [''q'', ''a/b//c.txt/''] [''a'', ''a/b'']) ''a/'' = Some ''a/b//c.txt/''
   \<and> containsLockedPath (cfg [''q'', ''a/b//c.txt/''] [''a'', ''a/b''])
        [CHR ''a'', CHR 0x5C, CHR ''b''] = Some ''a/b//c.txt/''
   \<and> containsLockedPath (cfg [''q'', ''a/b//c.txt/''] [''a'', ''a/b'']) ''q'' = None"
proof -
  let ?c = "cfg [''q'', ''a/b//c.txt/''] [''a'', ''a/b'']"
  have "set (foldersOf ?c) = set (collectFolders (lockedFilesOf ?c))"
    by (simp add: cfg_eval collectFolders_def getParentFolders_def path_eval set_add_def)
  then have i: "set (foldersOf ?c) = closure (map normalizePath (lockedFilesOf ?c))"
    by (simp only: closure_normalized)
  show ?thesis
    using i containsLockedPath_refines_plain_scan [OF i, of "''a/''"]
      containsLockedPath_refines_plain_scan [OF i, of "''q''"]
      containsLockedPath_refines_plain_scan [OF i, of "[CHR ''a'', CHR 0x5C, CHR ''b'']"]
    by (simp add: normalized_scan_def first_descendant_def under_def cfg_eval path_eval)
qed

theorem containsLockedPath_refines_plain_scan_counterexample:
  "set (foldersOf (cfg [''a/b/''] [''a'', ''a/b''])) = closure (lockedFilesOf (cfg [''a/b/''] [''a'', ''a/b'']))
   \<and> lockedFilesOf (cfg [''a/b/''] [''a'', ''a/b'']) = [''a/b/'']
   \<and> under (normalizePath ''a/b'') ''a/b/''
   \<and> containsLockedPath (cfg [''a/b/''] [''a'', ''a/b'']) ''a/b'' = None
   \<and> set (foldersOf (cfg [[CHR ''a'', CHR 0x5C, CHR ''b'']] []))
        = closure (lockedFilesOf (cfg [[CHR ''a'', CHR 0x5C, CHR ''b'']] []))
   \<and> containsLockedPath (cfg [[CHR ''a'', CHR 0x5C, CHR ''b'']] []) ''a''
        = Some [CHR ''a'', CHR 0x5C, CHR ''b'']
   \<and> \<not> under (normalizePath ''a'') [CHR ''a'', CHR 0x5C, CHR ''b'']"
  by (simp add: containsLockedPath_def Let_def cfg_eval path_eval under_def closure_def
      ancestors_def)

section \<open>Claims about the mutations\<close>





text \<open>
  C3, as amended. For a configuration whose index is current and a path whose normalized form
  is not yet a registry entry, \<^verbatim>\<open>addLock\<close> followed by \<^verbatim>\<open>removeLock\<close> on the same path restores
  the registry (the same list; an undefined registry counts as the empty one) and the ancestor
  index (the same set); both calls report a change.
\<close>

theorem addLock_removeLock_roundtrip:
  assumes cur: "index_current c" and fresh: "normalizePath P \<notin> set (lockedFilesOf c)"
  shows "lockedFilesOf (fst (removeLock (fst (addLock c P)) P)) = lockedFilesOf c
       \<and> set (foldersOf (fst (removeLock (fst (addLock c P)) P))) = set (foldersOf c)
       \<and> snd (addLock c P) \<and> snd (removeLock (fst (addLock c P)) P)"
proof -
  let ?t = "normalizePath P" and ?lf = "lockedFilesOf c"
  define c2 where "c2 = updateFoldersWithLockedContent (c\<lparr>lockedFiles := Some (?lf @ [?t])\<rparr>)"
  define c3 where "c3 = updateFoldersWithLockedContent (c2\<lparr>lockedFiles := Some ?lf\<rparr>)"
  have lf: "(case lockedFiles c of None \<Rightarrow> [] | Some lf \<Rightarrow> lf) = ?lf"
    by (simp add: lockedFilesOf_def)
  have add: "addLock c P = (c2, True)"
    using fresh by (simp add: addLock_def Let_def lf c2_def)
  have l2: "lockedFiles c2 = Some (?lf @ [?t])" by (simp add: c2_def)
  have "remove1 ?t (?lf @ [?t]) = ?lf" using fresh by (simp add: remove1_append)
  then have rem: "removeLock c2 P = (c3, True)"
    by (simp add: removeLock_def l2 c3_def)
  have reg: "lockedFilesOf c3 = ?lf" by (simp add: c3_def)
  have "index_current c3" unfolding c3_def by (rule index_current_update)
  with reg cur have idx: "set (foldersOf c3) = set (foldersOf c)" by (simp add: index_current_def)
  from add rem reg idx show ?thesis by simp
qed

theorem addLock_removeLock_roundtrip_witness:
  "index_current (cfg [''q''] []) \<and> normalizePath ''a/b'' \<notin> set (lockedFilesOf (cfg [''q''] []))
   \<and> lockedFilesOf (fst (removeLock (fst (addLock (cfg [''q''] []) ''a/b'')) ''a/b'')) = [''q'']
   \<and> foldersOf (fst (addLock (cfg [''q''] []) ''a/b'')) = [''a'']
   \<and> set (foldersOf (fst (removeLock (fst (addLock (cfg [''q''] []) ''a/b'')) ''a/b''))) = {}"
proof -
  have i: "index_current (cfg [''q''] [])"
    by (simp add: index_current_def cfg_eval path_eval collectFolders_def getParentFolders_def)
  have f: "normalizePath ''a/b'' \<notin> set (lockedFilesOf (cfg [''q''] []))"
    by (simp add: cfg_eval path_eval)
  have a: "foldersOf (fst (addLock (cfg [''q''] []) ''a/b'')) = [''a'']"
    by (simp add: addLock_def Let_def cfg_eval path_eval updateFoldersWithLockedContent_def
        collectFolders_def getParentFolders_def set_add_def)
  show ?thesis
    using i f a addLock_removeLock_roundtrip [OF i f] by (simp add: cfg_eval)
qed

theorem addLock_removeLock_roundtrip_counterexample:
  "index_current (cfg [''a''] []) \<and> lock_inv (cfg [''a''] [])
   \<and> lockedFilesOf (fst (removeLock (fst (addLock (cfg [''a''] []) ''a'')) ''a'')) = []
   \<and> lockedFilesOf (cfg [''a''] []) = [''a'']
   \<and> lockedFilesOf (fst (removeLock (fst (addLock (cfg [''a''] []) ''a'')) ''a''))
        \<noteq> lockedFilesOf (cfg [''a''] [])
   \<and> foldersOf (fst (removeLock (fst (addLock (cfg [''q''] [''stale'']) ''a'')) ''a'')) = []
   \<and> foldersOf (cfg [''q''] [''stale'']) = [''stale'']"
  by (simp add: index_current_def collectFolders_def getParentFolders_def
      lock_inv_def registry_canonical_def canonical_def cfg_eval path_eval closure_def ancestors_def
      addLock_def removeLock_def Let_def updateFoldersWithLockedContent_def)

text \<open>
  C4. The data model's invariant \<open>lock_inv\<close> says that every registry entry is in canonical form
  (no backslash, no two slashes in a row, no slash at the end), that no entry occurs twice, and
  that the index is exactly the set of proper separator-bounded ancestors of the entries. It
  holds for a configuration without locks, and it holds after each of the five lock-mutating
  operations whenever it held before: it holds after every completed operation.
\<close>

theorem lock_inv_preserved:
  "lock_inv \<lparr>lockedFiles = None, foldersWithLockedContent = None\<rparr>
   \<and> (lock_inv c \<longrightarrow>
        lock_inv (fst (addLock c P)) \<and> lock_inv (fst (removeLock c P))
        \<and> lock_inv (fst (removeLockForPath c P))
        \<and> lock_inv (fst (copyLockForPath c S D)) \<and> lock_inv (fst (moveLockForPath c S D)))"
  by (simp add: lock_inv_initial lock_inv_addLock lock_inv_removeLock lock_inv_removeLockForPath
      lock_inv_copyLockForPath lock_inv_moveLockForPath)

theorem lock_inv_preserved_witness:
  "lock_inv (cfg [''a/b''] [''a''])
   \<and> lock_inv (fst (addLock (cfg [''a/b''] [''a'']) [CHR ''x'', CHR 0x5C, CHR ''y'', CHR ''/'', CHR ''/'', CHR ''z'', CHR ''/'']))
   \<and> fst (addLock (cfg [''a/b''] [''a'']) [CHR ''x'', CHR 0x5C, CHR ''y'', CHR ''/'', CHR ''/'', CHR ''z'', CHR ''/''])
        = cfg [''a/b'', ''x/y/z''] [''a'', ''x'', ''x/y'']
   \<and> lock_inv (fst (moveLockForPath (cfg [''a/b''] [''a'']) ''a/b'' ''x//y/z/''))
   \<and> fst (moveLockForPath (cfg [''a/b''] [''a'']) ''a/b'' ''x//y/z/'') = cfg [''x/y/z''] [''x'', ''x/y'']"
proof -
  let ?P = "[CHR ''x'', CHR 0x5C, CHR ''y'', CHR ''/'', CHR ''/'', CHR ''z'', CHR ''/'']"
  have i: "lock_inv (cfg [''a/b''] [''a''])"
    by (simp add: lock_inv_def registry_canonical_def canonical_def cfg_eval closure_def ancestors_def)
  have a: "fst (addLock (cfg [''a/b''] [''a'']) ?P) = cfg [''a/b'', ''x/y/z''] [''a'', ''x'', ''x/y'']"
    by (simp add: addLock_def Let_def cfg_eval path_eval updateFoldersWithLockedContent_def
        collectFolders_def getParentFolders_def set_add_def)
  have m: "fst (moveLockForPath (cfg [''a/b''] [''a'']) ''a/b'' ''x//y/z/'') = cfg [''x/y/z''] [''x'', ''x/y'']"
    by (simp add: moveLockForPath_def Let_def cfg_eval path_eval collect_updates_def
        updateFoldersWithLockedContent_def collectFolders_def getParentFolders_def set_add_def)
  from lock_inv_preserved [of "cfg [''a/b''] [''a'']" ?P "''a/b''" "''x//y/z/''"] i
  have "lock_inv (fst (addLock (cfg [''a/b''] [''a'']) ?P))"
    and "lock_inv (fst (moveLockForPath (cfg [''a/b''] [''a'']) ''a/b'' ''x//y/z/''))"
    by blast+
  with i a m show ?thesis by simp
qed

text \<open>
  C7, as amended. On a registry without duplicates, for a normalized source \<open>S\<close> and destination
  \<open>D\<close> neither of which lies below the other, \<^verbatim>\<open>moveLockForPath\<close> leaves exactly: the entries
  that are neither \<open>S\<close> nor below \<open>S\<close>; the entry \<open>D\<close> when \<open>S\<close> was a direct entry; and, for every
  entry below \<open>S\<close>, that entry with its prefix \<open>S + "/"\<close> rewritten to \<open>D + "/"\<close>. The registry
  stays free of duplicates, and the call reports a change exactly when \<open>S\<close> or an entry below it
  was locked.
\<close>

theorem moveLockForPath_reroots:
  assumes "distinct (lockedFilesOf c)"
    and "\<not> under (normalizePath S) (normalizePath D)"
    and "\<not> under (normalizePath D) (normalizePath S)"
  shows "set (lockedFilesOf (fst (moveLockForPath c S D))) =
           {e \<in> set (lockedFilesOf c). e \<noteq> normalizePath S \<and> \<not> under (normalizePath S) e}
           \<union> (if normalizePath S \<in> set (lockedFilesOf c) then {normalizePath D} else {})
           \<union> (\<lambda>e. normalizePath D @ ''/'' @ drop (length (normalizePath S @ ''/'')) e)
                ` {e \<in> set (lockedFilesOf c). under (normalizePath S) e}
       \<and> distinct (lockedFilesOf (fst (moveLockForPath c S D)))
       \<and> (snd (moveLockForPath c S D) \<longleftrightarrow>
           (\<exists>e\<in>set (lockedFilesOf c). e = normalizePath S \<or> under (normalizePath S) e))"
  using assms by (rule moveLockForPath_exact)

theorem moveLockForPath_reroots_witness:
  "distinct (lockedFilesOf (cfg [''a/b/c.txt''] [''a'', ''a/b'']))
   \<and> \<not> under (normalizePath ''a/b'') (normalizePath ''x/y'')
   \<and> \<not> under (normalizePath ''x/y'') (normalizePath ''a/b'')
   \<and> set (lockedFilesOf (fst (moveLockForPath (cfg [''a/b/c.txt''] [''a'', ''a/b'']) ''a/b'' ''x/y''))) = {''x/y/c.txt''}
   \<and> distinct (lockedFilesOf (fst (moveLockForPath (cfg [''a/b/c.txt''] [''a'', ''a/b'']) ''a/b'' ''x/y'')))
   \<and> snd (moveLockForPath (cfg [''a/b/c.txt''] [''a'', ''a/b'']) ''a/b'' ''x/y'')
   \<and> isPathLocked (fst (moveLockForPath (cfg [''a/b/c.txt''] [''a'', ''a/b'']) ''a/b'' ''x/y'')) ''x/y/c.txt''
   \<and> \<not> isPathLocked (fst (moveLockForPath (cfg [''a/b/c.txt''] [''a'', ''a/b'']) ''a/b'' ''x/y'')) ''a/b/c.txt''
   \<and> \<not> isPathLocked (fst (moveLockForPath (cfg [''a/b/c.txt''] [''a'', ''a/b'']) ''a/b'' ''x/y'')) ''a/b''"
proof -
  let ?c = "cfg [''a/b/c.txt''] [''a'', ''a/b'']"
  have h1: "distinct (lockedFilesOf ?c)" by (simp add: cfg_eval)
  have h2: "\<not> under (normalizePath ''a/b'') (normalizePath ''x/y'')"
    by (simp add: under_def path_eval)
  have h3: "\<not> under (normalizePath ''x/y'') (normalizePath ''a/b'')"
    by (simp add: under_def path_eval)
  have m: "fst (moveLockForPath ?c ''a/b'' ''x/y'') = cfg [''x/y/c.txt''] [''x'', ''x/y'']"
    by (simp add: moveLockForPath_def Let_def cfg_eval path_eval collect_updates_def
        updateFoldersWithLockedContent_def collectFolders_def getParentFolders_def set_add_def)
  have q: "isPathLocked (cfg [''x/y/c.txt''] [''x'', ''x/y'']) ''x/y/c.txt''
         \<and> \<not> isPathLocked (cfg [''x/y/c.txt''] [''x'', ''x/y'']) ''a/b/c.txt''
         \<and> \<not> isPathLocked (cfg [''x/y/c.txt''] [''x'', ''x/y'']) ''a/b''"
    by (simp add: isPathLocked_def Let_def cfg_eval path_eval)
  have u: "under (normalizePath ''a/b'') ''a/b/c.txt''"
    by (simp add: under_def path_eval)
  from moveLockForPath_reroots [OF h1 h2 h3]
  have d: "distinct (lockedFilesOf (fst (moveLockForPath ?c ''a/b'' ''x/y'')))"
    and s: "snd (moveLockForPath ?c ''a/b'' ''x/y'') \<longleftrightarrow>
        (\<exists>e\<in>set (lockedFilesOf ?c). e = normalizePath ''a/b'' \<or> under (normalizePath ''a/b'') e)"
    by blast+
  from s u have s': "snd (moveLockForPath ?c ''a/b'' ''x/y'')" by (simp add: cfg_eval)
  have r: "set (lockedFilesOf (fst (moveLockForPath ?c ''a/b'' ''x/y''))) = {''x/y/c.txt''}"
    unfolding m by (simp add: cfg_eval)
  from h1 h2 h3 q d s' r show ?thesis by (simp add: m)
qed

theorem moveLockForPath_reroots_counterexample:
  "''a'' \<in> set (lockedFilesOf (cfg [''a''] []))
   \<and> lockedFilesOf (fst (moveLockForPath (cfg [''a''] []) ''a'' ''a/b'')) = [''a/b/b'']
   \<and> normalizePath ''a/b'' \<notin> set (lockedFilesOf (fst (moveLockForPath (cfg [''a''] []) ''a'' ''a/b'')))
   \<and> under (normalizePath ''a/b'') ''a/b/b/x''
   \<and> lockedFilesOf (fst (moveLockForPath (cfg [''a/b/b/x'', ''a/b/x''] [''a'', ''a/b'', ''a/b/b'']) ''a/b'' ''a'')) = [''a/x'']
   \<and> normalizePath ''a'' @ ''/'' @ drop (length (normalizePath ''a/b'' @ ''/'')) ''a/b/b/x''
        \<notin> set (lockedFilesOf (fst (moveLockForPath (cfg [''a/b/b/x'', ''a/b/x''] [''a'', ''a/b'', ''a/b/b'']) ''a/b'' ''a'')))"
  by (simp add: moveLockForPath_def Let_def cfg_eval path_eval collect_updates_def under_def)

text \<open>
  C2, as amended. For an instance whose index is current (the ancestor closure of the
  normalized registry entries), a list of non-empty input paths and \<open>checkContents = true\<close>,
  \<^verbatim>\<open>checkLockStatus\<close> returns in \<open>lockedPaths\<close> one entry per offending input path, in input order.
  An input is offending when its normalized form is a registry entry, lies below one, or has
  one below it. The entry is the input path itself when the input is locked (itself or through
  an ancestor), and otherwise the first stored registry entry below it. \<open>hasLocked\<close> is true
  exactly when \<open>lockedPaths\<close> is not empty, that is when some input is offending. The
  normalized form of every input is canonical.
\<close>

theorem checkLockStatus_reports:
  assumes "set (foldersOf c) = closure (map normalizePath (lockedFilesOf c))"
    and "[] \<notin> set ts"
  shows "lockedPaths (checkLockStatus c ts True) = map (reported c) (filter (offending c) ts)
       \<and> (hasLocked (checkLockStatus c ts True) \<longleftrightarrow> lockedPaths (checkLockStatus c ts True) \<noteq> [])
       \<and> (hasLocked (checkLockStatus c ts True) \<longleftrightarrow> (\<exists>t\<in>set ts. offending c t))
       \<and> (\<forall>t\<in>set ts. offending c t \<longrightarrow>
             (if locked_in (map normalizePath (lockedFilesOf c)) (normalizePath t)
              then reported c t = t
              else reported c t \<in> set (lockedFilesOf c)
                   \<and> under (normalizePath t) (normalizePath (reported c t))))
       \<and> (\<forall>t\<in>set ts. canonical (normalizePath t))"
proof -
  let ?reg = "map normalizePath (lockedFilesOf c)"
  have hit: "check_hit c = offending c"
    using check_hit_offending [OF assms(1)] by blast
  have res: "check_result c = reported c"
    using check_result_reported [OF assms(1)] by blast
  have paths: "lockedPaths (checkLockStatus c ts True) = map (reported c) (filter (offending c) ts)"
    using check_loop_contents [OF assms(2), of c "[]"]
    by (simp add: checkLockStatus_def Let_def hit res)
  have has: "hasLocked (checkLockStatus c ts True) \<longleftrightarrow> lockedPaths (checkLockStatus c ts True) \<noteq> []"
    by (simp add: checkLockStatus_def Let_def)
  have some: "lockedPaths (checkLockStatus c ts True) \<noteq> [] \<longleftrightarrow> (\<exists>t\<in>set ts. offending c t)"
    unfolding paths by (auto simp: filter_empty_conv)
  have entry: "reported c t \<in> set (lockedFilesOf c) \<and> under (normalizePath t) (normalizePath (reported c t))"
    if "offending c t" "\<not> locked_in ?reg (normalizePath t)" for t
  proof -
    from that have "contains_lock ?reg (normalizePath t)" by (simp add: offending_def)
    then have "first_descendant (lockedFilesOf c) (normalizePath t) \<noteq> None"
      by (simp add: first_descendant_None)
    then obtain L where L: "first_descendant (lockedFilesOf c) (normalizePath t) = Some L" by blast
    with that(2) have "reported c t = L" by (simp add: reported_def)
    with first_descendant_Some[OF L] show ?thesis by simp
  qed
  have own: "reported c t = t" if "locked_in ?reg (normalizePath t)" for t
    using that by (simp add: reported_def)
  from paths has some entry own show ?thesis by (auto simp: canonical_normalizePath)
qed

theorem checkLockStatus_reports_witness:
  "set (foldersOf (cfg [''q'', ''a/b''] [''a''])) = closure (map normalizePath (lockedFilesOf (cfg [''q'', ''a/b''] [''a''])))
   \<and> [] \<notin> set [''z'', [CHR ''q'', CHR 0x5C, CHR ''r''], ''a'']
   \<and> lockedPaths (checkLockStatus (cfg [''q'', ''a/b''] [''a'']) [''z'', [CHR ''q'', CHR 0x5C, CHR ''r''], ''a''] True) = [[CHR ''q'', CHR 0x5C, CHR ''r''], ''a/b'']
   \<and> hasLocked (checkLockStatus (cfg [''q'', ''a/b''] [''a'']) [''z'', [CHR ''q'', CHR 0x5C, CHR ''r''], ''a''] True)
   \<and> map (reported (cfg [''q'', ''a/b''] [''a''])) (filter (offending (cfg [''q'', ''a/b''] [''a''])) [''z'', [CHR ''q'', CHR 0x5C, CHR ''r''], ''a''])
        = [[CHR ''q'', CHR 0x5C, CHR ''r''], ''a/b'']"
proof -
  let ?c = "cfg [''q'', ''a/b''] [''a'']"
  have "set (foldersOf ?c) = set (collectFolders (lockedFilesOf ?c))"
    by (simp add: cfg_eval collectFolders_def getParentFolders_def path_eval set_add_def)
  then have i: "set (foldersOf ?c) = closure (map normalizePath (lockedFilesOf ?c))"
    by (simp only: closure_normalized)
  have h: "[] \<notin> set [''z'', [CHR ''q'', CHR 0x5C, CHR ''r''], ''a'']" by simp
  have e: "lockedPaths (checkLockStatus ?c [''z'', [CHR ''q'', CHR 0x5C, CHR ''r''], ''a''] True) = [[CHR ''q'', CHR 0x5C, CHR ''r''], ''a/b'']"
    by (simp add: checkLockStatus_def Let_def isPathOrContentsLocked_def isPathLocked_def
        containsLockedPath_def truthy_def cfg_eval path_eval)
  from checkLockStatus_reports [OF i h]
  have p: "lockedPaths (checkLockStatus ?c [''z'', [CHR ''q'', CHR 0x5C, CHR ''r''], ''a''] True)
            = map (reported ?c) (filter (offending ?c) [''z'', [CHR ''q'', CHR 0x5C, CHR ''r''], ''a''])"
    and q: "hasLocked (checkLockStatus ?c [''z'', [CHR ''q'', CHR 0x5C, CHR ''r''], ''a''] True) \<longleftrightarrow>
        lockedPaths (checkLockStatus ?c [''z'', [CHR ''q'', CHR 0x5C, CHR ''r''], ''a''] True) \<noteq> []"
    by blast+
  from i h e p q show ?thesis by simp
qed

theorem checkLockStatus_reports_counterexample:
  "offending (cfg [''a/b''] [''a'']) ''a''
   \<and> lockedPaths (checkLockStatus (cfg [''a/b''] [''a'']) [''a''] True) = [''a/b'']
   \<and> lockedPaths (checkLockStatus (cfg [''a/b''] [''a'']) [''a''] True) \<noteq> [''a'']
   \<and> offending (cfg [''a/b''] [''zzz'']) ''a''
   \<and> lockedPaths (checkLockStatus (cfg [''a/b''] [''zzz'']) [''a''] True) = []"
  by (simp add: offending_def locked_in_def contains_lock_def under_def checkLockStatus_def Let_def
      isPathOrContentsLocked_def isPathLocked_def containsLockedPath_def truthy_def cfg_eval
      path_eval)

section \<open>Claims about the middleware and the handlers\<close>

text \<open>
  C1. The claim fails on the code at a lock on the instance root. Locking \<open>/\<close> stores the
  normalized path, the empty string. For a non-admin \<^verbatim>\<open>file/delete\<close> whose target is the empty
  string, the candidate is locked (\<^verbatim>\<open>isPathLocked\<close> is true and \<^verbatim>\<open>isPathOrContentsLocked\<close> returns
  the candidate), yet the middleware forwards the request: it tests the returned string for
  truthiness, and the empty string is falsy.
\<close>

theorem fileLockMiddleware_forwards_locked_root:
  "fst (addLock \<lparr>lockedFiles = None, foldersWithLockedContent = None\<rparr> ''/'') = cfg [''''] []
   \<and> isPathLocked (cfg [''''] []) ''''
   \<and> isPathOrContentsLocked (cfg [''''] []) '''' = Some ''''
   \<and> getTargets (the (findConfig ''file/delete''))
        \<lparr>isAdmin = False, instanceUuid = Some ''i'', target = None, targets = Some [''''],
         targetPairs = None\<rparr> = ['''']
   \<and> fileLockMiddleware [''i'' \<mapsto> cfg [''''] []] ''file/delete''
        \<lparr>isAdmin = False, instanceUuid = Some ''i'', target = None, targets = Some [''''],
         targetPairs = None\<rparr> = Next"
  by (simp add: addLock_def Let_def updateFoldersWithLockedContent_def collectFolders_def
      getParentFolders_def set_add_def isPathOrContentsLocked_def isPathLocked_def
      fileLockMiddleware_def findConfig_def FILE_LOCK_CHECK_CONFIGS_def checkTargetsLocked_def
      truthy_def cfg_eval path_eval)

text \<open>
  C10, as amended. The configuration table lists exactly the seven governed events. Every
  other event, in particular \<^verbatim>\<open>file/touch\<close> and \<^verbatim>\<open>file/mkdir\<close>, is forwarded whatever the payload,
  admin or not. For a create request at \<open>P\<close> on an existing instance, each handler calls the
  file manager first. When that call returns normally, the handler stores the result of
  \<^verbatim>\<open>removeLockForPath\<close> on the target: the registry loses its entry equal to the normalized \<open>P\<close>
  and every entry below it and keeps the others, so that on a registry without duplicates no
  lock at or below \<open>P\<close> is left. When the call throws, the handler answers with an error and
  leaves the instances unchanged.
\<close>

theorem create_forwarded_and_clears_locks:
  "map event FILE_LOCK_CHECK_CONFIGS =
     [''file/list'', ''file/edit'', ''file/chmod'', ''file/copy'', ''file/move'',
      ''file/delete'', ''file/compress'']
   \<and> (\<forall>ev d. ev \<notin> set (map event FILE_LOCK_CHECK_CONFIGS) \<longrightarrow> fileLockMiddleware insts ev d = Next)
   \<and> fileLockMiddleware insts ''file/touch'' data = Next
   \<and> fileLockMiddleware insts ''file/mkdir'' data = Next
   \<and> (instanceUuid data = Some uuid \<and> insts uuid = Some inst \<and> target data = Some P \<longrightarrow>
        file_touch fm insts data =
          (if fm (NewFile (Some P))
           then (insts(uuid \<mapsto> fst (removeLockForPath inst P)), Response)
           else (insts, ResponseError))
        \<and> file_mkdir fm insts data =
          (if fm (Mkdir (Some P))
           then (insts(uuid \<mapsto> fst (removeLockForPath inst P)), Response)
           else (insts, ResponseError)))
   \<and> lockedFilesOf (fst (removeLockForPath inst P)) =
        filter (\<lambda>e. \<not> under (normalizePath P) e) (remove1 (normalizePath P) (lockedFilesOf inst))
   \<and> (distinct (lockedFilesOf inst) \<longrightarrow>
        (\<forall>e\<in>set (lockedFilesOf (fst (removeLockForPath inst P))).
            e \<noteq> normalizePath P \<and> \<not> under (normalizePath P) e))"
proof -
  have t: "fileLockMiddleware insts ''file/touch'' data = Next"
    by (rule unlisted_event_forwarded) (simp add: config_events)
  have m: "fileLockMiddleware insts ''file/mkdir'' data = Next"
    by (rule unlisted_event_forwarded) (simp add: config_events)
  have h: "file_touch fm insts data =
          (if fm (NewFile (Some P))
           then (insts(uuid \<mapsto> fst (removeLockForPath inst P)), Response)
           else (insts, ResponseError))
        \<and> file_mkdir fm insts data =
          (if fm (Mkdir (Some P))
           then (insts(uuid \<mapsto> fst (removeLockForPath inst P)), Response)
           else (insts, ResponseError))"
    if "instanceUuid data = Some uuid" "insts uuid = Some inst" "target data = Some P"
    using that by (simp add: file_touch_def file_mkdir_def clear_lock_Some)
  have r: "lockedFilesOf (fst (removeLockForPath inst P)) =
        filter (\<lambda>e. \<not> under (normalizePath P) e) (remove1 (normalizePath P) (lockedFilesOf inst))"
    using removeLockForPath_general [of inst P] by blast
  have d: "\<forall>e\<in>set (lockedFilesOf (fst (removeLockForPath inst P))).
            e \<noteq> normalizePath P \<and> \<not> under (normalizePath P) e"
    if "distinct (lockedFilesOf inst)"
    using removeLockForPath_registry [OF that, of P] by (simp add: pruned_def)
  from t m h r d unlisted_event_forwarded show ?thesis
    by (simp add: config_events)
qed

theorem create_forwarded_and_clears_locks_witness:
  "instanceUuid (create_request ''a//'') = Some ''i''
   \<and> one_instance (cfg [''a'', ''a/b'', ''ab''] [''a'']) ''i'' = Some (cfg [''a'', ''a/b'', ''ab''] [''a''])
   \<and> target (create_request ''a//'') = Some ''a//''
   \<and> distinct (lockedFilesOf (cfg [''a'', ''a/b'', ''ab''] [''a'']))
   \<and> fileLockMiddleware (one_instance (cfg [''a'', ''a/b'', ''ab''] [''a''])) ''file/mkdir'' (create_request ''a//'') = Next
   \<and> isPathLocked (cfg [''a'', ''a/b'', ''ab''] [''a'']) ''a//''
   \<and> map_option lockedFilesOf
        (fst (file_mkdir fm_returns (one_instance (cfg [''a'', ''a/b'', ''ab''] [''a''])) (create_request ''a//'')) ''i'')
        = Some [''ab'']
   \<and> map_option lockedFilesOf
        (fst (file_touch fm_returns (one_instance (cfg [''a'', ''a/b'', ''ab''] [''a''])) (create_request ''a//'')) ''i'')
        = Some [''ab'']"
proof -
  let ?inst = "cfg [''a'', ''a/b'', ''ab''] [''a'']"
  let ?insts = "one_instance ?inst"
  let ?data = "create_request ''a//''"
  have h1: "instanceUuid ?data = Some ''i''" by (simp add: create_request_def)
  have h2: "?insts ''i'' = Some ?inst" by (simp add: one_instance_def)
  have h3: "target ?data = Some ''a//''" by (simp add: create_request_def)
  have h4: "distinct (lockedFilesOf ?inst)" by (simp add: cfg_eval)
  note at_a = create_forwarded_and_clears_locks [of ?insts ?data "''i''" ?inst "''a//''" fm_returns]
  from at_a have a: "fileLockMiddleware ?insts ''file/mkdir'' ?data = Next" by blast
  from at_a h1 h2 h3 have b: "file_mkdir fm_returns ?insts ?data
            = (?insts(''i'' \<mapsto> fst (removeLockForPath ?inst ''a//'')), Response)"
    and b': "file_touch fm_returns ?insts ?data
            = (?insts(''i'' \<mapsto> fst (removeLockForPath ?inst ''a//'')), Response)"
    by (simp_all add: fm_returns_def)
  from at_a have c: "lockedFilesOf (fst (removeLockForPath ?inst ''a//''))
            = filter (\<lambda>e. \<not> under (normalizePath ''a//'') e) (remove1 (normalizePath ''a//'') (lockedFilesOf ?inst))"
    by blast
  have d: "filter (\<lambda>e. \<not> under (normalizePath ''a//'') e) (remove1 (normalizePath ''a//'') (lockedFilesOf ?inst)) = [''ab'']"
    by (simp add: cfg_eval path_eval under_def)
  have e: "isPathLocked ?inst ''a//''"
    by (simp add: isPathLocked_def Let_def cfg_eval path_eval)
  from h1 h2 h3 h4 a e show ?thesis unfolding b b' by (simp add: c d)
qed

theorem create_forwarded_and_clears_locks_counterexample:
  "isPathLocked (cfg [''a''] []) ''a''
   \<and> fileLockMiddleware (one_instance (cfg [''a''] [])) ''file/mkdir'' (create_request ''a'') = Next
   \<and> file_mkdir fm_throws (one_instance (cfg [''a''] [])) (create_request ''a'')
        = (one_instance (cfg [''a''] []), ResponseError)
   \<and> file_touch fm_throws (one_instance (cfg [''a''] [])) (create_request ''a'')
        = (one_instance (cfg [''a''] []), ResponseError)
   \<and> map_option lockedFilesOf
        (fst (file_mkdir fm_returns (one_instance (cfg [''a'', ''a''] [])) (create_request ''a'')) ''i'')
        = Some [''a'']"
  by (simp add: isPathLocked_def Let_def cfg_eval path_eval fileLockMiddleware_def findConfig_def
      FILE_LOCK_CHECK_CONFIGS_def file_mkdir_def file_touch_def clear_lock_def fm_throws_def
      fm_returns_def one_instance_def create_request_def removeLockForPath_def
      updateFoldersWithLockedContent_def)

end
